theory Spec2Isabelle
  imports Main "HOL-Library.AList" "HOL-Library.Sublist"
begin

section \<open>Data model of \<^verbatim>\<open>get_publications.py\<close>\<close>

text \<open>
  Exceptions are values. The source has no \<^verbatim>\<open>raise\<close> statement of its own; the
  exceptions it can meet come from the operations it calls: \<^verbatim>\<open>abstract + title\<close> raises
  a \<^verbatim>\<open>TypeError\<close> when the title is \<^verbatim>\<open>None\<close> (a JSON \<^verbatim>\<open>null\<close>), the tagger may fail on a
  text, and the HTTP request may fail.
\<close>

datatype error = TypeError | TaggerError | RequestError

text \<open>
  An inverted abstract index is a Python dict from word to the list of its positions.
  A dict keeps its keys in insertion order, so it is an association list; the positions
  are JSON integers.
\<close>

type_synonym inverted_index = "(string \<times> int list) list"

text \<open>
  One element of \<^verbatim>\<open>res['results']\<close>: the three fields the code reads. A JSON \<^verbatim>\<open>null\<close> is
  \<open>None\<close>. The scores are only copied, so their type is a parameter.
\<close>

record 's work =
  display_name :: "string option"
  abstract_inverted_index :: "inverted_index option"
  concepts :: "(string \<times> 's) list"

text \<open>The dict that \<^verbatim>\<open>get_docs\<close> yields for one document.\<close>

record 's processed =
  data :: "string list"
  subjects :: "(string \<times> 's) list"

text \<open>
  The objects built by \<^verbatim>\<open>DocRetriever.__init__\<close> are parameters of the model:
  \<open>tag\<close> stands for \<^verbatim>\<open>Sentence(text)\<close> followed by \<^verbatim>\<open>tagger.predict\<close>, and gives the tokens
  with their text and the value of their first label, or the exception raised;
  \<open>lemmatize\<close> is \<^verbatim>\<open>WordNetLemmatizer.lemmatize\<close>; \<open>lower\<close> is \<^verbatim>\<open>str.lower\<close>.
\<close>

datatype wordnet_pos = ADJ | NOUN | VERB | ADV

record nlp =
  tag :: "string \<Rightarrow> error + (string \<times> string) list"
  lemmatize :: "string \<Rightarrow> wordnet_pos \<Rightarrow> string"
  lower :: "string \<Rightarrow> string"

definition tag_dict :: "string \<Rightarrow> wordnet_pos option" where
  "tag_dict = [''ADJ'' \<mapsto> ADJ, ''NOUN'' \<mapsto> NOUN, ''VERB'' \<mapsto> VERB, ''ADV'' \<mapsto> ADV]"


section \<open>\<^verbatim>\<open>build_abstract\<close>\<close>

text \<open>
  \<^verbatim>\<open>n_words = sum([len(v) for v in abstract_idx.values()])\<close>
\<close>

definition n_words :: "inverted_index \<Rightarrow> nat" where
  "n_words abstract_idx = sum_list (map (\<lambda>(word, v). length v) abstract_idx)"

text \<open>
  The inner loop, for one \<open>i\<close>: every word whose position list holds \<open>i\<close> is appended to
  the text, followed by a space.
\<close>

definition append_words_at :: "inverted_index \<Rightarrow> int \<Rightarrow> string \<Rightarrow> string" where
  "append_words_at abstract_idx i text =
     fold (\<lambda>(word, v) text. if i \<in> set v then text @ word @ '' '' else text) abstract_idx text"

definition build_abstract :: "inverted_index \<Rightarrow> string" where
  "build_abstract abstract_idx =
     fold (\<lambda>i text. append_words_at abstract_idx (int i) text) [0..<n_words abstract_idx] ''''"


section \<open>\<^verbatim>\<open>process_texts\<close>\<close>

text \<open>
  Lines 67 and 68: \<^verbatim>\<open>abstract[-2:]\<close> is the last two characters, or the whole string when
  it is shorter (the subtraction on \<open>nat\<close> stops at 0, as the slice does).
\<close>

definition terminate_abstract :: "string \<Rightarrow> string" where
  "terminate_abstract abstract =
     (if drop (length abstract - 2) abstract \<noteq> ''. '' then abstract @ ''. '' else abstract)"

text \<open>Lines 73 to 78, for one token.\<close>

fun lemma_of :: "nlp \<Rightarrow> string \<times> string \<Rightarrow> string" where
  "lemma_of nl (text, label) =
     (case tag_dict label of
        Some pos \<Rightarrow> lemmatize nl (lower nl text) pos
      | None \<Rightarrow> lower nl text)"

text \<open>
  \<^verbatim>\<open>Counter(lemmas)\<close>: a dict from element to count, filled in one pass, so its keys are
  in the order of first occurrence. \<^verbatim>\<open>lemmas_cnt[word]\<close> is 0 for a missing key.
\<close>

definition counter_get :: "(string \<times> nat) list \<Rightarrow> string \<Rightarrow> nat" where
  "counter_get cnt word = (case map_of cnt word of Some c \<Rightarrow> c | None \<Rightarrow> 0)"

definition Counter :: "string list \<Rightarrow> (string \<times> nat) list" where
  "Counter elems = fold (\<lambda>elem cnt. AList.update elem (counter_get cnt elem + 1) cnt) elems []"

text \<open>Lines 80 to 83: the entries of the counter whose word is in the vocabulary.\<close>

definition vocab_lemmas :: "string set \<Rightarrow> (string \<times> nat) list \<Rightarrow> (string \<times> nat) list" where
  "vocab_lemmas vocab lemmas_cnt =
     fold (\<lambda>word acc. if word \<in> vocab then AList.update word (counter_get lemmas_cnt word) acc else acc)
       (map fst lemmas_cnt) []"

text \<open>
  \<^verbatim>\<open>most_common()\<close> is \<^verbatim>\<open>sorted(self.items(), key=itemgetter(1), reverse=True)\<close>.
  Python's sort is stable, and with \<^verbatim>\<open>reverse=True\<close> it sorts as if every comparison were
  reversed, so items with equal counts keep their order: a stable sort on the negated
  count.
\<close>

definition most_common :: "(string \<times> nat) list \<Rightarrow> (string \<times> nat) list" where
  "most_common cnt = sort_key (\<lambda>(word, c). - int c) cnt"

text \<open>Lines 79 to 84.\<close>

definition rank_lemmas :: "string set \<Rightarrow> string list \<Rightarrow> string list" where
  "rank_lemmas vocab lemmas = map fst (most_common (vocab_lemmas vocab (Counter lemmas)))"

definition process_texts :: "nlp \<Rightarrow> string set \<Rightarrow> string option \<Rightarrow> inverted_index \<Rightarrow> error + string list" where
  "process_texts nl vocab title abstract_idx =
     (let abstract = terminate_abstract (build_abstract abstract_idx) in
      case title of
        None \<Rightarrow> Inl TypeError
      | Some t \<Rightarrow>
          (case tag nl (abstract @ t) of
             Inl e \<Rightarrow> Inl e
           | Inr sentence \<Rightarrow> Inr (rank_lemmas vocab (map (lemma_of nl) sentence))))"


section \<open>\<^verbatim>\<open>get_docs\<close>\<close>

text \<open>
  The upstream API is a function from the URL prefix and the page number to the parsed
  response of \<^verbatim>\<open>req.get(f'{url}{page}').json()\<close>: \<open>Inl e\<close> when the request raises, \<open>Inr None\<close>
  when the response has no \<^verbatim>\<open>'results'\<close> key, \<open>Inr (Some docs)\<close> otherwise. The target \<open>n\<close> and
  the counters \<open>yielded\<close> and \<open>page\<close>, which start at 0 and 1 and are only incremented, are
  natural numbers.
\<close>

type_synonym 's api = "string \<Rightarrow> nat \<Rightarrow> error + 's work list option"

text \<open>
  \<^verbatim>\<open>{s['id']: s['score'] for s in doc['concepts']}\<close>: a later score of the same id
  replaces the earlier one, at the position of the first.
\<close>

definition concept_scores :: "(string \<times> 's) list \<Rightarrow> (string \<times> 's) list" where
  "concept_scores cs = fold (\<lambda>(i, score) d. AList.update i score d) cs []"

text \<open>
  Lines 49 to 54, for one document: \<open>None\<close> when the abstract is \<^verbatim>\<open>None\<close> and the document
  is skipped; otherwise the dict to yield, or the exception that \<^verbatim>\<open>process_texts\<close> raises
  while the dict is built.
\<close>

definition process_doc :: "nlp \<Rightarrow> string set \<Rightarrow> 's work \<Rightarrow> (error + 's processed) option" where
  "process_doc nl vocab doc =
     (case abstract_inverted_index doc of
        None \<Rightarrow> None
      | Some abstract \<Rightarrow>
          Some (case process_texts nl vocab (display_name doc) abstract of
                  Inl e \<Rightarrow> Inl e
                | Inr lemmas \<Rightarrow> Inr \<lparr>data = lemmas, subjects = concept_scores (concepts doc)\<rparr>))"

text \<open>
  The \<^verbatim>\<open>for doc in res['results']\<close> loop. The generator's yields are collected in \<open>acc\<close>.
  The loop ends the page (\<open>NextPage\<close>), returns from the generator at the n-th yield
  (\<open>Returned\<close>), or is left by an exception of \<^verbatim>\<open>process_texts\<close> (\<open>Raised\<close>), which nothing
  in \<^verbatim>\<open>get_docs\<close> catches.
\<close>

datatype 's page_end =
    NextPage nat "'s processed list"
  | Returned "'s processed list"
  | Raised error "'s processed list"

fun scan_page :: "nlp \<Rightarrow> string set \<Rightarrow> nat \<Rightarrow> 's work list \<Rightarrow> nat \<Rightarrow> 's processed list \<Rightarrow> 's page_end" where
  "scan_page nl vocab n [] yielded acc = NextPage yielded acc"
| "scan_page nl vocab n (doc # docs) yielded acc =
     (case process_doc nl vocab doc of
        None \<Rightarrow> scan_page nl vocab n docs yielded acc
      | Some (Inl e) \<Rightarrow> Raised e acc
      | Some (Inr d) \<Rightarrow>
          (let acc' = acc @ [d]; yielded' = yielded + 1
           in if yielded' = n then Returned acc' else scan_page nl vocab n docs yielded' acc'))"

text \<open>
  The \<^verbatim>\<open>while yielded < n\<close> loop. Nothing bounds the number of pages, so the loop is a
  partial function: \<open>None\<close> is a run that never returns. A result is the list of yielded
  documents and the exception that ended the generator, if any.
\<close>

partial_function (option) get_docs_loop ::
  "nlp \<Rightarrow> string set \<Rightarrow> 's api \<Rightarrow> string \<Rightarrow> nat \<Rightarrow> nat \<Rightarrow> nat \<Rightarrow> 's processed list
     \<Rightarrow> ('s processed list \<times> error option) option" where
  "get_docs_loop nl vocab api url n yielded page acc =
     (if yielded < n then
        (case api url page of
           Inl e \<Rightarrow> Some (acc, Some e)
         | Inr None \<Rightarrow> Some (acc, None)
         | Inr (Some results) \<Rightarrow>
             (case scan_page nl vocab n results yielded acc of
                NextPage yielded' acc' \<Rightarrow> get_docs_loop nl vocab api url n yielded' (page + 1) acc'
              | Returned acc' \<Rightarrow> Some (acc', None)
              | Raised e acc' \<Rightarrow> Some (acc', Some e)))
      else Some (acc, None))"

definition get_docs ::
  "nlp \<Rightarrow> string set \<Rightarrow> 's api \<Rightarrow> string \<Rightarrow> nat \<Rightarrow> ('s processed list \<times> error option) option" where
  "get_docs nl vocab api url n =
     get_docs_loop nl vocab api (url @ '',type:journal-article&page='') n 0 1 []"


section \<open>\<^verbatim>\<open>main\<close> and \<^verbatim>\<open>get_done_subjects\<close>\<close>

text \<open>
  A batch is the dict from subject to its list of documents. The directory
  \<^verbatim>\<open>data/openalex/docs\<close> is the list of its files, each with its parsed content.
\<close>

type_synonym 's batch = "(string \<times> 's processed list) list"

definition get_done_subjects :: "(string \<times> 's batch) list \<Rightarrow> string list" where
  "get_done_subjects dir = fold (\<lambda>(file, content) done. done @ map fst content) dir []"

text \<open>
  The loop over \<^verbatim>\<open>subjects.items()\<close>; of a subject's attributes only \<^verbatim>\<open>works_api_url\<close> is
  read, so the subjects are a list of pairs of id and URL. The loop's variables are
  passed along; \<open>dumped\<close> collects the \<^verbatim>\<open>json.dump\<close> calls, each with its file number and
  the batch written. \<^verbatim>\<open>batch[subject] = []\<close> and the appends of the yielded documents leave
  the list of these documents under the subject's key: in the key's place when the dict
  has the key, at the end otherwise. An exception of \<^verbatim>\<open>get_docs\<close> is not caught by \<^verbatim>\<open>main\<close>
  either: the run ends there, with what was dumped before.
\<close>

fun main_loop ::
  "nlp \<Rightarrow> string set \<Rightarrow> 's api \<Rightarrow> string list \<Rightarrow> nat \<Rightarrow> nat \<Rightarrow> (string \<times> string) list
     \<Rightarrow> 's batch \<Rightarrow> nat \<Rightarrow> nat \<Rightarrow> (nat \<times> 's batch) list
     \<Rightarrow> (('s batch \<times> nat \<times> nat \<times> (nat \<times> 's batch) list) \<times> error option) option" where
  "main_loop nl vocab api done n_docs n_file [] batch cnt file_nr dumped =
     Some ((batch, cnt, file_nr, dumped), None)"
| "main_loop nl vocab api done n_docs n_file ((subject, works_api_url) # rest) batch cnt file_nr dumped =
     (if subject \<in> set done then
        main_loop nl vocab api done n_docs n_file rest batch cnt file_nr dumped
      else
        (case get_docs nl vocab api works_api_url n_docs of
           None \<Rightarrow> None
         | Some (docs, Some e) \<Rightarrow> Some ((batch, cnt, file_nr, dumped), Some e)
         | Some (docs, None) \<Rightarrow>
             (let batch' = AList.update subject docs batch;
                  cnt' = cnt + length docs
              in if cnt' \<ge> n_file then
                   main_loop nl vocab api done n_docs n_file rest [] 0 (file_nr + 1)
                     (dumped @ [(file_nr, batch')])
                 else
                   main_loop nl vocab api done n_docs n_file rest batch' cnt' file_nr dumped)))"

text \<open>
  \<^verbatim>\<open>main\<close>: the result is the list of units written by the run, in order, and the
  exception that ended the run, if any; \<open>None\<close> is a run that never ends.
\<close>

definition main ::
  "nlp \<Rightarrow> string set \<Rightarrow> 's api \<Rightarrow> (string \<times> 's batch) list \<Rightarrow> (string \<times> string) list \<Rightarrow> nat \<Rightarrow> nat
     \<Rightarrow> ((nat \<times> 's batch) list \<times> error option) option" where
  "main nl vocab api dir subjs n_docs n_file =
     (let done = get_done_subjects dir in
      case main_loop nl vocab api done n_docs n_file subjs [] 0 1 [] of
        None \<Rightarrow> None
      | Some ((batch, cnt, file_nr, dumped), Some e) \<Rightarrow> Some (dumped, Some e)
      | Some ((batch, cnt, file_nr, dumped), None) \<Rightarrow>
          Some (if length batch > 0 then dumped @ [(file_nr, batch)] else dumped, None))"


section \<open>Notions of the specification\<close>

text \<open>The index of the first occurrence of a lemma in the lemma sequence.\<close>

definition first_occurrence :: "string list \<Rightarrow> string \<Rightarrow> nat" where
  "first_occurrence xs w = length (takeWhile (\<lambda>y. y \<noteq> w) xs)"

text \<open>A document qualifies iff its abstract index is not null.\<close>

definition qualifying :: "'s work list \<Rightarrow> 's work list" where
  "qualifying docs = filter (\<lambda>doc. abstract_inverted_index doc \<noteq> None) docs"

text \<open>The dict yielded for a qualifying document whose processing raises no exception.\<close>

definition yield_of :: "nlp \<Rightarrow> string set \<Rightarrow> 's work \<Rightarrow> 's processed" where
  "yield_of nl vocab doc = projr (the (process_doc nl vocab doc))"

text \<open>The total record count of a batch, and the subjects of a persisted unit.\<close>

definition n_records :: "'s batch \<Rightarrow> nat" where
  "n_records batch = sum_list (map (\<lambda>(subject, docs). length docs) batch)"

definition unit_subjects :: "nat \<times> 's batch \<Rightarrow> string list" where
  "unit_subjects u = map fst (snd u)"


section \<open>Example inputs\<close>

text \<open>
  A tagger that makes one token of the whole text, a lemmatizer and a lower-casing that
  change nothing.
\<close>

definition plain_nlp :: nlp where
  "plain_nlp = \<lparr>tag = \<lambda>t. Inr [(t, ''NOUN'')], lemmatize = \<lambda>w pos. w, lower = \<lambda>w. w\<rparr>"

text \<open>An upstream whose every page has a \<^verbatim>\<open>'results'\<close> field, and no document in it.\<close>

definition empty_pages_api :: "nat api" where
  "empty_pages_api = (\<lambda>url page. Inr (Some []))"

text \<open>
  Two journal articles with an abstract, the first with a \<^verbatim>\<open>null\<close> title, and an upstream
  that serves both on page 1 of every subject and has no \<^verbatim>\<open>'results'\<close> on later pages.
\<close>

definition untitled_work :: "nat work" where
  "untitled_work = \<lparr>display_name = None, abstract_inverted_index = Some [(''a'', [0])], concepts = []\<rparr>"

definition titled_work :: "nat work" where
  "titled_work = \<lparr>display_name = Some ''t'', abstract_inverted_index = Some [(''a'', [0])], concepts = []\<rparr>"

definition untitled_first_api :: "nat api" where
  "untitled_first_api = (\<lambda>url page. if page = 1 then Inr (Some [untitled_work, titled_work]) else Inr None)"

text \<open>
  An article without abstract, and an upstream with two pages of results: the titled and
  the abstract-less article on page 1, the titled one again on page 2, no \<^verbatim>\<open>'results'\<close>
  from page 3 on.
\<close>

definition unabstracted_work :: "nat work" where
  "unabstracted_work = \<lparr>display_name = Some ''t'', abstract_inverted_index = None, concepts = []\<rparr>"

definition two_pages_api :: "nat api" where
  "two_pages_api = (\<lambda>url page.
     if page = 1 then Inr (Some [titled_work, unabstracted_work])
     else if page = 2 then Inr (Some [titled_work])
     else Inr None)"

text \<open>
  An upstream with one page of results per subject: six articles for the subject whose
  URL is \<^verbatim>\<open>u1\<close>, seven for any other.
\<close>

definition six_seven_api :: "nat api" where
  "six_seven_api = (\<lambda>url page.
     if page = 1 then
       (if url = ''u1,type:journal-article&page='' then Inr (Some (replicate 6 titled_work))
        else Inr (Some (replicate 7 titled_work)))
     else Inr None)"

text \<open>
  An upstream with one page of results per subject: one titled article for the subject
  whose URL is \<^verbatim>\<open>u1\<close>; for any other subject a titled article, then the article with
  the null title, then a titled one.
\<close>

definition untitled_later_api :: "nat api" where
  "untitled_later_api = (\<lambda>url page.
     if page = 1 then
       (if url = ''u1,type:journal-article&page='' then Inr (Some [titled_work])
        else Inr (Some [titled_work, untitled_work, titled_work]))
     else Inr None)"


section \<open>Reconstruction of the abstract\<close>

lemma fold_append_conv: "fold (\<lambda>x t. t @ g x) xs t0 = t0 @ concat (map g xs)"
  by (induction xs arbitrary: t0) simp_all

lemma append_words_at_eq:
  "append_words_at idx i t0 =
     t0 @ concat (map (\<lambda>w. w @ '' '') (map fst (filter (\<lambda>(w, v). i \<in> set v) idx)))"
  unfolding append_words_at_def
  by (induction idx arbitrary: t0) auto

lemma concat_map_concat: "concat (map (\<lambda>x. concat (map h (e x))) xs) = concat (map h (concat (map e xs)))"
  by (induction xs) simp_all

lemma build_abstract_eq:
  "build_abstract idx =
     concat (map (\<lambda>w. w @ '' '')
       (concat (map (\<lambda>i. map fst (filter (\<lambda>(w, v). int i \<in> set v) idx)) [0..<n_words idx])))"
proof -
  have "build_abstract idx =
      fold (\<lambda>i text. text @ concat (map (\<lambda>w. w @ '' '') (map fst (filter (\<lambda>(w, v). int i \<in> set v) idx))))
        [0..<n_words idx] ''''"
    unfolding build_abstract_def append_words_at_eq ..
  also have "\<dots> = concat (map (\<lambda>i. concat (map (\<lambda>w. w @ '' '') (map fst (filter (\<lambda>(w, v). int i \<in> set v) idx))))
        [0..<n_words idx])"
    by (simp only: fold_append_conv append_Nil)
  finally show ?thesis by (simp only: concat_map_concat)
qed

lemma n_words_length: "n_words idx = length (concat (map snd idx))"
  unfolding n_words_def by (induction idx) auto

lemma filter_unique_entry:
  "distinct (concat (map snd idx)) \<Longrightarrow> (w, v) \<in> set idx \<Longrightarrow> p \<in> set v \<Longrightarrow>
     filter (\<lambda>(w, v). p \<in> set v) idx = [(w, v)]"
proof (induction idx)
  case Nil
  then show ?case by simp
next
  case (Cons e idx)
  obtain w' v' where e: "e = (w', v')" by (cases e)
  show ?case
  proof (cases "p \<in> set v'")
    case True
    from Cons.prems e have "set v' \<inter> (\<Union>a\<in>set idx. set (snd a)) = {}" by simp
    with True have notin: "\<forall>(w, v) \<in> set idx. p \<notin> set v" by fastforce
    then have "filter (\<lambda>(w, v). p \<in> set v) idx = []" by (auto simp: filter_empty_conv)
    moreover from notin Cons.prems(2,3) e have "(w, v) = (w', v')" by auto
    ultimately show ?thesis using e True by simp
  next
    case False
    with Cons.prems e have "(w, v) \<in> set idx" by auto
    with Cons False e show ?thesis by simp
  qed
qed

text \<open>
  Claim C1. Let the keys of the index be distinct (it is a dict), and let the position
  lists together hold every position of \<open>0..N-1\<close> exactly once: no position twice, and
  none missing. Then the text that \<open>build_abstract\<close> returns is a sequence of \<open>N\<close> words,
  each followed by one space, and a word of the index stands at index \<open>i\<close> of the sequence
  exactly when \<open>i\<close> is in its position list.
\<close>

theorem build_abstract_reorders_by_position:
  assumes keys: "distinct (map fst idx)"
    and nodup: "distinct (concat (map snd idx))"
    and cover: "set (concat (map snd idx)) = int ` {0..<N}"
  shows "\<exists>ws. build_abstract idx = concat (map (\<lambda>w. w @ '' '') ws) \<and> length ws = N \<and>
           (\<forall>(w, v) \<in> set idx. \<forall>i<N. ws ! i = w \<longleftrightarrow> int i \<in> set v)"
proof -
  let ?at = "\<lambda>i. map fst (filter (\<lambda>(w, v). int i \<in> set v) idx)"
  let ?ws = "concat (map ?at [0..<N])"
  have "card (set (concat (map snd idx))) = length (concat (map snd idx))"
    using nodup by (rule distinct_card)
  moreover have "card (int ` {0..<N}) = N" by (simp add: card_image)
  ultimately have n: "n_words idx = N" using cover by (simp add: n_words_length)
  have single: "\<exists>w v. (w, v) \<in> set idx \<and> int i \<in> set v \<and> ?at i = [w]" if "i < N" for i
  proof -
    from that cover have "int i \<in> set (concat (map snd idx))" by simp
    then obtain w v where wv: "(w, v) \<in> set idx" "int i \<in> set v" by auto
    from filter_unique_entry [OF nodup wv] wv show ?thesis by auto
  qed
  define word where "word i = hd (?at i)" for i
  have at_word: "?at i = [word i]" if "i < N" for i
    using single [OF that] by (auto simp: word_def)
  have eq: "map ?at [0..<N] = map (\<lambda>i. [word i]) [0..<N]"
    by (rule map_cong) (auto simp: at_word)
  have ws: "?ws = map word [0..<N]"
    unfolding eq by simp
  have pos: "(ws_i = w) = (int i \<in> set v)"
    if "(w, v) \<in> set idx" "i < N" "ws_i = word i" for w v i ws_i
  proof
    assume "ws_i = w"
    from single [OF \<open>i < N\<close>] obtain w' v' where
      e: "(w', v') \<in> set idx" "int i \<in> set v'" "?at i = [w']" by (elim exE conjE)
    with at_word [OF \<open>i < N\<close>] have "w' = word i" by simp
    with \<open>ws_i = w\<close> that have "w' = w" by simp
    with e that keys have "v' = v" by (auto dest: eq_key_imp_eq_value)
    with e show "int i \<in> set v" by simp
  next
    assume "int i \<in> set v"
    from filter_unique_entry [OF nodup that(1) this] at_word [OF \<open>i < N\<close>] that
    show "ws_i = w" by simp
  qed
  have "build_abstract idx = concat (map (\<lambda>w. w @ '' '') ?ws)"
    using build_abstract_eq [of idx] n by simp
  moreover have "length ?ws = N" by (simp add: ws)
  moreover have "\<forall>(w, v) \<in> set idx. \<forall>i<N. ?ws ! i = w \<longleftrightarrow> int i \<in> set v"
    using pos by (auto simp: ws)
  ultimately show ?thesis by blast
qed

theorem build_abstract_reorders_by_position_witness:
  "distinct (map fst [(''b'', [1::int]), (''a'', [0, 2])]) \<and>
   distinct (concat (map snd [(''b'', [1::int]), (''a'', [0, 2])])) \<and>
   set (concat (map snd [(''b'', [1::int]), (''a'', [0, 2])])) = int ` {0..<3} \<and>
   (\<exists>ws. build_abstract [(''b'', [1]), (''a'', [0, 2])] = concat (map (\<lambda>w. w @ '' '') ws) \<and>
      length ws = 3 \<and>
      (\<forall>(w, v) \<in> set [(''b'', [1::int]), (''a'', [0, 2])]. \<forall>i<3. ws ! i = w \<longleftrightarrow> int i \<in> set v))"
proof -
  have k: "distinct (map fst [(''b'', [1::int]), (''a'', [0, 2])])" by simp
  have d: "distinct (concat (map snd [(''b'', [1::int]), (''a'', [0, 2])]))" by simp
  have "{0..<3::nat} = {0, 1, 2}" by auto
  then have c: "set (concat (map snd [(''b'', [1::int]), (''a'', [0, 2])])) = int ` {0..<3}" by auto
  from build_abstract_reorders_by_position [OF k d c] k d c show ?thesis by blast
qed


section \<open>The separator between abstract and title\<close>

lemma last_two_suffix: "drop (length a - 2) a = ''. '' \<longleftrightarrow> suffix ''. '' a"
proof
  assume h: "drop (length a - 2) a = ''. ''"
  have "a = take (length a - 2) a @ drop (length a - 2) a" by simp
  with h have "a = take (length a - 2) a @ ''. ''" by simp
  then show "suffix ''. '' a" unfolding suffix_def by blast
next
  assume "suffix ''. '' a"
  then obtain zs where "a = zs @ ''. ''" unfolding suffix_def by blast
  then show "drop (length a - 2) a = ''. ''" by simp
qed

text \<open>
  Claim C8. A text that ends with a full stop and a space is left as it is; to any other
  text a full stop and a space are appended. Either way the result ends with them, and
  it is the result that \<open>process_texts\<close> puts in front of the title and hands to the
  tagger.
\<close>

theorem terminate_abstract_separator: "(suffix ''. '' a \<longrightarrow> terminate_abstract a = a) \<and>
   (\<not> suffix ''. '' a \<longrightarrow> terminate_abstract a = a @ ''. '') \<and>
   suffix ''. '' (terminate_abstract a) \<and>
   process_texts nl vocab (Some title) idx =
     (case tag nl (terminate_abstract (build_abstract idx) @ title) of
        Inl e \<Rightarrow> Inl e | Inr sentence \<Rightarrow> Inr (rank_lemmas vocab (map (lemma_of nl) sentence)))"
  by (simp add: terminate_abstract_def last_two_suffix process_texts_def suffix_appendI)

theorem terminate_abstract_separator_witness:
  "terminate_abstract ''a b. '' = ''a b. '' \<and> terminate_abstract ''a b '' = ''a b . ''"
  using terminate_abstract_separator [of "''a b. ''"] terminate_abstract_separator [of "''a b ''"] by (simp add: suffix_def)

text \<open>
  Claim C9. For the empty index \<open>build_abstract\<close> returns the empty string. The separator
  is then the whole text in front of the title: when the tagger accepts that text,
  \<open>process_texts\<close> returns the ranked lemmas, and \<open>get_docs\<close> does not skip a document whose
  abstract index is the empty dict, it yields the dict built from it.
\<close>

theorem empty_index_is_processed:
  "build_abstract [] = '''' \<and>
   (tag nl (''. '' @ title) = Inr sentence \<longrightarrow>
      process_texts nl vocab (Some title) [] = Inr (rank_lemmas vocab (map (lemma_of nl) sentence))) \<and>
   (abstract_inverted_index doc = Some [] \<and> display_name doc = Some title \<and>
    tag nl (''. '' @ title) = Inr sentence \<longrightarrow>
      process_doc nl vocab doc =
        Some (Inr \<lparr>data = rank_lemmas vocab (map (lemma_of nl) sentence),
                   subjects = concept_scores (concepts doc)\<rparr>))"
proof -
  have empty: "build_abstract [] = ''''"
    by (simp add: build_abstract_def n_words_def)
  then have sep: "terminate_abstract (build_abstract []) = ''. ''"
    by (simp add: terminate_abstract_def)
  show ?thesis
    using empty sep by (simp add: process_texts_def process_doc_def)
qed

theorem empty_index_is_processed_witness:
  "process_texts \<lparr>tag = \<lambda>t. Inr [(t, ''X'')], lemmatize = \<lambda>w p. w, lower = \<lambda>w. w\<rparr> {''. T''}
     (Some ''T'') [] = Inr (rank_lemmas {''. T''} [''. T'']) \<and>
   process_doc \<lparr>tag = \<lambda>t. Inr [(t, ''X'')], lemmatize = \<lambda>w p. w, lower = \<lambda>w. w\<rparr> {''. T''}
     \<lparr>display_name = Some ''T'', abstract_inverted_index = Some [], concepts = [(''C1'', 1::nat)]\<rparr> =
     Some (Inr \<lparr>data = rank_lemmas {''. T''} [''. T''], subjects = concept_scores [(''C1'', 1)]\<rparr>)"
  using empty_index_is_processed
    [of "\<lparr>tag = \<lambda>t. Inr [(t, ''X'')], lemmatize = \<lambda>w p. w, lower = \<lambda>w. w\<rparr>" "''T''" "[(''. T'', ''X'')]"
        "{''. T''}"
        "\<lparr>display_name = Some ''T'', abstract_inverted_index = Some [], concepts = [(''C1'', 1::nat)]\<rparr>"]
  by (simp add: tag_dict_def)


section \<open>Filtering and ranking the lemmas\<close>

lemma update_fresh: "k \<notin> fst ` set al \<Longrightarrow> AList.update k v al = al @ [(k, v)]"
  by (induction al) auto

lemma Counter_snoc:
  "Counter (xs @ [x]) = AList.update x (counter_get (Counter xs) x + 1) (Counter xs)"
  by (simp add: Counter_def)

lemma Counter_keys_set: "fst ` set (Counter xs) = set xs"
  by (induction xs rule: rev_induct) (auto simp: Counter_snoc AList.dom_update, simp add: Counter_def)

lemma Counter_keys_snoc:
  "map fst (Counter (xs @ [x])) = (if x \<in> set xs then map fst (Counter xs) else map fst (Counter xs) @ [x])"
  using Counter_keys_set [of xs] by (simp add: Counter_snoc AList.update_keys)

lemma Counter_distinct: "distinct (map fst (Counter xs))"
proof (induction xs rule: rev_induct)
  case Nil
  show ?case by (simp add: Counter_def)
next
  case (snoc x xs)
  then show ?case using Counter_keys_set [of xs] by (simp add: Counter_snoc AList.distinct_update)
qed

lemma Counter_map_of:
  "map_of (Counter xs) w = (if w \<in> set xs then Some (count_list xs w) else None)"
proof (induction xs rule: rev_induct)
  case Nil
  show ?case by (simp add: Counter_def)
next
  case (snoc x xs)
  then show ?case
    by (auto simp: Counter_snoc AList.update_conv' counter_get_def)
qed

lemma Counter_entry: "(w, c) \<in> set (Counter xs) \<longleftrightarrow> w \<in> set xs \<and> c = count_list xs w"
proof -
  have "(w, c) \<in> set (Counter xs) \<longleftrightarrow> map_of (Counter xs) w = Some c"
    by (simp add: Counter_distinct)
  then show ?thesis by (auto simp: Counter_map_of)
qed

lemma first_occurrence_snoc:
  "w \<in> set xs \<Longrightarrow> first_occurrence (xs @ [x]) w = first_occurrence xs w"
  by (simp add: first_occurrence_def takeWhile_append1)

lemma first_occurrence_less: "w \<in> set xs \<Longrightarrow> first_occurrence xs w < length xs"
  unfolding first_occurrence_def by (induction xs) auto

lemma first_occurrence_new:
  "w \<notin> set xs \<Longrightarrow> first_occurrence (xs @ [w]) w = length xs"
  unfolding first_occurrence_def by (induction xs) auto

lemma Counter_first_occurrence:
  "sorted_wrt (\<lambda>a b. first_occurrence xs a < first_occurrence xs b) (map fst (Counter xs))"
proof (induction xs rule: rev_induct)
  case Nil
  show ?case by (simp add: Counter_def)
next
  case (snoc x xs)
  have keys: "set (map fst (Counter xs)) = set xs" using Counter_keys_set [of xs] by simp
  have old: "sorted_wrt (\<lambda>a b. first_occurrence (xs @ [x]) a < first_occurrence (xs @ [x]) b)
      (map fst (Counter xs))"
    by (rule sorted_wrt_mono_rel [OF _ snoc.IH]) (simp add: Counter_keys_set first_occurrence_snoc)
  show ?case
  proof (cases "x \<in> set xs")
    case True
    with old show ?thesis by (simp add: Counter_keys_snoc)
  next
    case False
    have "\<forall>a \<in> set (map fst (Counter xs)). first_occurrence (xs @ [x]) a < first_occurrence (xs @ [x]) x"
      using False
      by (simp add: Counter_keys_set first_occurrence_snoc first_occurrence_new first_occurrence_less)
    with old False show ?thesis by (simp add: Counter_keys_snoc sorted_wrt_append)
  qed
qed

lemma vocab_fold:
  "distinct ks \<Longrightarrow> set ks \<inter> fst ` set acc = {} \<Longrightarrow>
   fold (\<lambda>word acc. if word \<in> vocab then AList.update word (g word) acc else acc) ks acc =
     acc @ map (\<lambda>k. (k, g k)) (filter (\<lambda>k. k \<in> vocab) ks)"
proof (induction ks arbitrary: acc)
  case Nil
  show ?case by simp
next
  case (Cons k ks)
  show ?case
  proof (cases "k \<in> vocab")
    case True
    from Cons.prems have fresh: "k \<notin> fst ` set acc" by auto
    from Cons.prems have "set ks \<inter> fst ` set (acc @ [(k, g k)]) = {}" by auto
    with Cons.prems Cons.IH [of "acc @ [(k, g k)]"] True fresh show ?thesis
      by (simp add: update_fresh)
  next
    case False
    with Cons.prems Cons.IH [of acc] show ?thesis by auto
  qed
qed

lemma vocab_lemmas_filter:
  assumes "distinct (map fst cnt)"
  shows "vocab_lemmas vocab cnt = filter (\<lambda>(w, c). w \<in> vocab) cnt"
proof -
  have "map (\<lambda>p. (fst p, counter_get cnt (fst p))) (filter (\<lambda>p. fst p \<in> vocab) cnt)
      = map (\<lambda>p. p) (filter (\<lambda>p. fst p \<in> vocab) cnt)"
    using assms by (intro map_cong) (auto simp: counter_get_def)
  then show ?thesis
    using vocab_fold [of "map fst cnt" "[]" vocab "counter_get cnt"] assms
    by (simp add: vocab_lemmas_def filter_map comp_def case_prod_unfold)
qed

lemma insort_stable:
  fixes f :: "'a \<Rightarrow> 'k::linorder"
  assumes "sorted_wrt (\<lambda>a b. f a < f b \<or> (f a = f b \<and> R a b)) ys"
    and "\<forall>y \<in> set ys. R x y"
  shows "sorted_wrt (\<lambda>a b. f a < f b \<or> (f a = f b \<and> R a b)) (insort_key f x ys)"
  using assms
proof (induction ys)
  case Nil
  show ?case by simp
next
  case (Cons y ys)
  show ?case
  proof (cases "f x \<le> f y")
    case True
    have "f x < f z \<or> (f x = f z \<and> R x z)" if "z \<in> set (y # ys)" for z
    proof -
      from Cons.prems(1) that have "f y \<le> f z" by auto
      with True have "f x \<le> f z" by simp
      with Cons.prems(2) that show ?thesis by auto
    qed
    with Cons.prems(1) True show ?thesis by simp
  next
    case False
    with Cons show ?thesis by (auto simp: set_insort_key)
  qed
qed

lemma sort_key_stable_wrt:
  fixes f :: "'a \<Rightarrow> 'k::linorder"
  assumes "sorted_wrt R xs"
  shows "sorted_wrt (\<lambda>a b. f a < f b \<or> (f a = f b \<and> R a b)) (sort_key f xs)"
  using assms
proof (induction xs)
  case Nil
  show ?case by simp
next
  case (Cons x xs)
  then show ?case by (simp add: insort_stable)
qed

lemma rank_lemmas_eq:
  "rank_lemmas vocab xs =
     map fst (sort_key (\<lambda>(w, c). - int c) (filter (\<lambda>(w, c). w \<in> vocab) (Counter xs)))"
  by (simp add: rank_lemmas_def most_common_def vocab_lemmas_filter Counter_distinct)

lemma rank_lemmas_set: "set (rank_lemmas vocab xs) = set xs \<inter> vocab"
  using Counter_keys_set [of xs] by (auto simp: rank_lemmas_eq Counter_entry image_iff)

lemma rank_lemmas_distinct: "distinct (rank_lemmas vocab xs)"
proof -
  have "distinct (map fst (filter (\<lambda>(w, c). w \<in> vocab) (Counter xs)))"
    by (rule distinct_map_filter) (rule Counter_distinct)
  then show ?thesis
    by (simp add: rank_lemmas_eq distinct_map)
qed

lemma rank_lemmas_sorted:
  "sorted_wrt (\<lambda>a b. count_list xs a > count_list xs b \<or>
       (count_list xs a = count_list xs b \<and> first_occurrence xs a < first_occurrence xs b))
     (rank_lemmas vocab xs)"
proof -
  let ?R = "\<lambda>p q. first_occurrence xs (fst p) < first_occurrence xs (fst q)"
  let ?f = "\<lambda>(w, c). - int c"
  let ?ys = "filter (\<lambda>(w, c). w \<in> vocab) (Counter xs)"
  have "sorted_wrt ?R (Counter xs)"
    using Counter_first_occurrence [of xs] by (simp add: sorted_wrt_map)
  then have "sorted_wrt ?R ?ys" by (rule sorted_wrt_filter)
  then have st: "sorted_wrt (\<lambda>p q. ?f p < ?f q \<or> (?f p = ?f q \<and> ?R p q)) (sort_key ?f ?ys)"
    by (rule sort_key_stable_wrt)
  have "sorted_wrt (\<lambda>p q. count_list xs (fst p) > count_list xs (fst q) \<or>
       (count_list xs (fst p) = count_list xs (fst q) \<and> ?R p q)) (sort_key ?f ?ys)"
    by (rule sorted_wrt_mono_rel [OF _ st]) (auto simp: Counter_entry)
  then show ?thesis by (simp add: rank_lemmas_eq sorted_wrt_map)
qed

lemma rank_example_tie:
  "a \<noteq> b \<Longrightarrow> a \<noteq> c \<Longrightarrow> b \<noteq> c \<Longrightarrow> a \<in> vocab \<Longrightarrow> b \<in> vocab \<Longrightarrow> c \<in> vocab \<Longrightarrow>
     rank_lemmas vocab [a, b, a, c, b] = [a, b, c]"
  by (simp add: rank_lemmas_def most_common_def vocab_lemmas_def Counter_def counter_get_def)

lemma rank_example_filter:
  "a \<noteq> c \<Longrightarrow> b \<noteq> a \<Longrightarrow> b \<noteq> c \<Longrightarrow> rank_lemmas {a, c} [a, b, b, c] = [a, c]"
  by (simp add: rank_lemmas_def most_common_def vocab_lemmas_def Counter_def counter_get_def)

text \<open>
  Claim C2. The ranker returns exactly the lemmas of the input that are in the vocabulary,
  each once, ordered by descending number of occurrences, and among lemmas that occur
  equally often by the index of their first occurrence in the input. For the input
  \<open>[a, b, a, c, b]\<close> of three different lemmas of the vocabulary the result is \<open>[a, b, c]\<close>.
\<close>

theorem rank_lemmas_frequency_then_first_occurrence:
  "set (rank_lemmas vocab lemmas) = set lemmas \<inter> vocab \<and>
   distinct (rank_lemmas vocab lemmas) \<and>
   sorted_wrt (\<lambda>a b. count_list lemmas a > count_list lemmas b \<or>
       (count_list lemmas a = count_list lemmas b \<and>
        first_occurrence lemmas a < first_occurrence lemmas b))
     (rank_lemmas vocab lemmas) \<and>
   (distinct [a, b, c] \<and> {a, b, c} \<subseteq> vocab \<longrightarrow> rank_lemmas vocab [a, b, a, c, b] = [a, b, c])"
proof (intro conjI impI)
  show "set (rank_lemmas vocab lemmas) = set lemmas \<inter> vocab"
    by (rule rank_lemmas_set)
  show "distinct (rank_lemmas vocab lemmas)"
    by (rule rank_lemmas_distinct)
  show "sorted_wrt (\<lambda>a b. count_list lemmas a > count_list lemmas b \<or>
       (count_list lemmas a = count_list lemmas b \<and>
        first_occurrence lemmas a < first_occurrence lemmas b))
     (rank_lemmas vocab lemmas)"
    by (rule rank_lemmas_sorted)
  assume "distinct [a, b, c] \<and> {a, b, c} \<subseteq> vocab"
  then show "rank_lemmas vocab [a, b, a, c, b] = [a, b, c]"
    by (intro rank_example_tie) simp_all
qed

theorem rank_lemmas_frequency_then_first_occurrence_witness:
  "rank_lemmas {''a'', ''b'', ''c''} [''a'', ''b'', ''a'', ''c'', ''b''] = [''a'', ''b'', ''c'']"
  using rank_lemmas_frequency_then_first_occurrence [of "{''a'', ''b'', ''c''}" "[]" "''a''" "''b''" "''c''"] by simp

text \<open>
  Claim C7. A lemma that is not in the vocabulary is not in the result, however often it
  occurs: for the vocabulary \<open>{a, c}\<close> and the input \<open>[a, b, b, c]\<close> the result is \<open>[a, c]\<close>.
  When no lemma of the input is in the vocabulary the result is empty.
\<close>

theorem rank_lemmas_drops_out_of_vocabulary:
  "(\<forall>w. w \<notin> vocab \<longrightarrow> w \<notin> set (rank_lemmas vocab lemmas)) \<and>
   (a \<noteq> c \<and> b \<notin> {a, c} \<longrightarrow> rank_lemmas {a, c} [a, b, b, c] = [a, c]) \<and>
   (set lemmas \<inter> vocab = {} \<longrightarrow> rank_lemmas vocab lemmas = [])"
proof (intro conjI impI allI)
  fix w assume "w \<notin> vocab"
  then show "w \<notin> set (rank_lemmas vocab lemmas)" by (simp add: rank_lemmas_set)
next
  assume "a \<noteq> c \<and> b \<notin> {a, c}"
  then show "rank_lemmas {a, c} [a, b, b, c] = [a, c]"
    by (intro rank_example_filter) simp_all
next
  assume "set lemmas \<inter> vocab = {}"
  then have "set (rank_lemmas vocab lemmas) = {}" by (simp add: rank_lemmas_set)
  then show "rank_lemmas vocab lemmas = []" by simp
qed

theorem rank_lemmas_drops_out_of_vocabulary_witness:
  "''b'' \<notin> set (rank_lemmas {''a'', ''c''} [''a'', ''b'', ''b'', ''c'']) \<and>
   rank_lemmas {''a'', ''c''} [''a'', ''b'', ''b'', ''c''] = [''a'', ''c''] \<and>
   rank_lemmas {''a'', ''c''} [''b'', ''b''] = []"
  using rank_lemmas_drops_out_of_vocabulary [of "{''a'', ''c''}" "[''a'', ''b'', ''b'', ''c'']" "''a''" "''c''" "''b''"]
    rank_lemmas_drops_out_of_vocabulary [of "{''a'', ''c''}" "[''b'', ''b'']" "''a''" "''c''" "''b''"]
  by simp


section \<open>The fetcher\<close>

lemma qualifying_Cons:
  "qualifying (doc # docs) = (if process_doc nl vocab doc = None then qualifying docs else doc # qualifying docs)"
  by (auto simp: qualifying_def process_doc_def split: option.splits)

lemma qualifying_append: "qualifying (xs @ ys) = qualifying xs @ qualifying ys"
  by (simp add: qualifying_def)

lemma scan_page_ok:
  assumes "\<forall>d \<in> set (take (n - yielded) (qualifying docs)). \<exists>p. process_doc nl vocab d = Some (Inr p)"
    and "yielded < n"
  shows "scan_page nl vocab n docs yielded acc =
     (if n \<le> yielded + length (qualifying docs)
      then Returned (acc @ map (yield_of nl vocab) (take (n - yielded) (qualifying docs)))
      else NextPage (yielded + length (qualifying docs)) (acc @ map (yield_of nl vocab) (qualifying docs)))"
  using assms
proof (induction docs arbitrary: yielded acc)
  case Nil
  then show ?case by (simp add: qualifying_def)
next
  case (Cons doc docs)
  show ?case
  proof (cases "process_doc nl vocab doc")
    case None
    with Cons show ?thesis by (simp add: qualifying_Cons [of doc docs nl vocab])
  next
    case (Some r)
    then have q: "qualifying (doc # docs) = doc # qualifying docs"
      by (simp add: qualifying_Cons [of doc docs nl vocab])
    from Cons.prems obtain m where m: "n - yielded = Suc m" by (cases "n - yielded") auto
    with Cons.prems(1) q obtain p where p: "process_doc nl vocab doc = Some (Inr p)" by auto
    then have y: "yield_of nl vocab doc = p" by (simp add: yield_of_def)
    show ?thesis
    proof (cases "yielded + 1 = n")
      case True
      with m have "m = 0" by arith
      with True p y q m show ?thesis by simp
    next
      case False
      with Cons.prems have lt: "yielded + 1 < n" by simp
      have m': "n - (yielded + 1) = m" using m by simp
      have "\<forall>d \<in> set (take (n - (yielded + 1)) (qualifying docs)). \<exists>p. process_doc nl vocab d = Some (Inr p)"
        using Cons.prems(1) q m m' by simp
      from Cons.IH [OF this lt, of "acc @ [p]"] p y q m m' False show ?thesis
        by simp
    qed
  qed
qed

lemma get_docs_loop_ok:
  assumes "\<forall>i<length pages. api url (page + i) = Inr (Some (pages ! i))"
    and "n \<le> yielded + length (qualifying (concat pages)) \<or> api url (page + length pages) = Inr None"
    and "\<forall>d \<in> set (take (n - yielded) (qualifying (concat pages))). \<exists>p. process_doc nl vocab d = Some (Inr p)"
  shows "get_docs_loop nl vocab api url n yielded page acc =
     Some (acc @ map (yield_of nl vocab) (take (n - yielded) (qualifying (concat pages))), None)"
  using assms
proof (induction pages arbitrary: yielded page acc)
  case Nil
  then show ?case by (subst get_docs_loop.simps) (auto simp: qualifying_def)
next
  case (Cons docs pages)
  show ?case
  proof (cases "yielded < n")
    case False
    then show ?thesis by (subst get_docs_loop.simps) simp
  next
    case True
    from Cons.prems(1) have first: "api url page = Inr (Some docs)" by fastforce
    have q: "qualifying (concat (docs # pages)) = qualifying docs @ qualifying (concat pages)"
      by (simp add: qualifying_append)
    have ok1: "\<forall>d \<in> set (take (n - yielded) (qualifying docs)). \<exists>p. process_doc nl vocab d = Some (Inr p)"
      using Cons.prems(3) unfolding q by simp
    note scan = scan_page_ok [OF ok1 True, of acc]
    show ?thesis
    proof (cases "n \<le> yielded + length (qualifying docs)")
      case le: True
      with scan first True show ?thesis
        unfolding q by (subst get_docs_loop.simps) simp
    next
      case gt: False
      let ?y = "yielded + length (qualifying docs)"
      have rest: "\<forall>i<length pages. api url (page + 1 + i) = Inr (Some (pages ! i))"
        using Cons.prems(1) by fastforce
      have stop: "n \<le> ?y + length (qualifying (concat pages)) \<or> api url (page + 1 + length pages) = Inr None"
        using Cons.prems(2) unfolding q by (simp add: add.assoc)
      have ok2: "\<forall>d \<in> set (take (n - ?y) (qualifying (concat pages))). \<exists>p. process_doc nl vocab d = Some (Inr p)"
        using Cons.prems(3) gt unfolding q by auto
      have tk: "take (n - yielded) (qualifying docs @ qualifying (concat pages)) =
          qualifying docs @ take (n - ?y) (qualifying (concat pages))"
        using gt by simp
      from Cons.IH [OF rest stop ok2, of "acc @ map (yield_of nl vocab) (qualifying docs)"]
        scan first True gt tk
      show ?thesis
        unfolding q by (subst get_docs_loop.simps) simp
    qed
  qed
qed

lemma scan_page_prefix:
  assumes "yielded + length (qualifying pre) < n"
    and "\<forall>d \<in> set (qualifying pre). \<exists>p. process_doc nl vocab d = Some (Inr p)"
  shows "scan_page nl vocab n (pre @ rest) yielded acc =
     scan_page nl vocab n rest (yielded + length (qualifying pre))
       (acc @ map (yield_of nl vocab) (qualifying pre))"
  using assms
proof (induction pre arbitrary: yielded acc)
  case Nil
  show ?case by (simp add: qualifying_def)
next
  case (Cons doc pre)
  show ?case
  proof (cases "process_doc nl vocab doc")
    case None
    with Cons show ?thesis by (simp add: qualifying_Cons [of doc pre nl vocab])
  next
    case (Some r)
    then have q: "qualifying (doc # pre) = doc # qualifying pre"
      by (simp add: qualifying_Cons [of doc pre nl vocab])
    with Cons.prems(2) obtain p where p: "process_doc nl vocab doc = Some (Inr p)" by auto
    then have y: "yield_of nl vocab doc = p" by (simp add: yield_of_def)
    from Cons.prems(1) q have lt: "yielded + 1 + length (qualifying pre) < n" by simp
    have ok: "\<forall>d \<in> set (qualifying pre). \<exists>p. process_doc nl vocab d = Some (Inr p)"
      using Cons.prems(2) q by simp
    from Cons.IH [OF lt ok, of "acc @ [p]"] p y q lt show ?thesis by simp
  qed
qed

lemma get_docs_loop_pages:
  assumes "\<forall>i<length pages. api url (page + i) = Inr (Some (pages ! i))"
    and "yielded + length (qualifying (concat pages)) < n"
    and "\<forall>d \<in> set (qualifying (concat pages)). \<exists>p. process_doc nl vocab d = Some (Inr p)"
  shows "get_docs_loop nl vocab api url n yielded page acc =
     get_docs_loop nl vocab api url n (yielded + length (qualifying (concat pages)))
       (page + length pages) (acc @ map (yield_of nl vocab) (qualifying (concat pages)))"
  using assms
proof (induction pages arbitrary: yielded page acc)
  case Nil
  show ?case by (simp add: qualifying_def)
next
  case (Cons docs pages)
  have q: "qualifying (concat (docs # pages)) = qualifying docs @ qualifying (concat pages)"
    by (simp add: qualifying_append)
  from Cons.prems(2) have lt: "yielded < n" and lt1: "yielded + length (qualifying docs) < n"
    unfolding q by simp_all
  from Cons.prems(1) have first: "api url page = Inr (Some docs)" by fastforce
  have ok1: "\<forall>d \<in> set (qualifying docs). \<exists>p. process_doc nl vocab d = Some (Inr p)"
    using Cons.prems(3) unfolding q by simp
  have scan: "scan_page nl vocab n docs yielded acc =
      NextPage (yielded + length (qualifying docs)) (acc @ map (yield_of nl vocab) (qualifying docs))"
    using scan_page_prefix [OF lt1 ok1, of "[]" acc] by simp
  let ?y = "yielded + length (qualifying docs)"
  have rest: "\<forall>i<length pages. api url (page + 1 + i) = Inr (Some (pages ! i))"
    using Cons.prems(1) by fastforce
  have lt2: "?y + length (qualifying (concat pages)) < n"
    using Cons.prems(2) unfolding q by simp
  have ok2: "\<forall>d \<in> set (qualifying (concat pages)). \<exists>p. process_doc nl vocab d = Some (Inr p)"
    using Cons.prems(3) unfolding q by simp
  have "get_docs_loop nl vocab api url n yielded page acc =
      get_docs_loop nl vocab api url n ?y (page + 1) (acc @ map (yield_of nl vocab) (qualifying docs))"
    using first lt scan by (subst get_docs_loop.simps) simp
  also note Cons.IH [OF rest lt2 ok2, of "acc @ map (yield_of nl vocab) (qualifying docs)"]
  finally show ?case unfolding q by (simp add: add.assoc)
qed

lemma yields_eq:
  assumes "map (process_doc nl vocab) ds = map (\<lambda>p. Some (Inr p)) ps"
  shows "map (yield_of nl vocab) ds = ps" and "\<forall>d \<in> set ds. \<exists>p. process_doc nl vocab d = Some (Inr p)"
proof -
  have "map (yield_of nl vocab) ds = map (\<lambda>r. projr (the r)) (map (process_doc nl vocab) ds)"
    by (simp add: yield_of_def comp_def)
  also have "\<dots> = ps" unfolding assms by (simp add: comp_def)
  finally show "map (yield_of nl vocab) ds = ps" .
  show "\<forall>d \<in> set ds. \<exists>p. process_doc nl vocab d = Some (Inr p)"
  proof
    fix d assume "d \<in> set ds"
    then have "process_doc nl vocab d \<in> set (map (process_doc nl vocab) ds)" by simp
    then show "\<exists>p. process_doc nl vocab d = Some (Inr p)" unfolding assms by auto
  qed
qed

lemma get_docs_raises:
  assumes pages: "\<forall>i<length pages. api (url @ '',type:journal-article&page='') (Suc i) = Inr (Some (pages ! i))"
    and last: "api (url @ '',type:journal-article&page='') (Suc (length pages)) = Inr (Some (pre @ doc # post))"
    and less: "length (qualifying (concat pages @ pre)) < n"
    and ok: "map (process_doc nl vocab) (qualifying (concat pages @ pre)) = map (\<lambda>p. Some (Inr p)) ps"
    and bad: "process_doc nl vocab doc = Some (Inl e)"
  shows "get_docs nl vocab api url n = Some (ps, Some e)"
proof -
  let ?url = "url @ '',type:journal-article&page=''"
  let ?qs = "qualifying (concat pages)"
  note y = yields_eq [OF ok]
  have q: "qualifying (concat pages @ pre) = ?qs @ qualifying pre" by (simp add: qualifying_append)
  have p1: "\<forall>i<length pages. api ?url (1 + i) = Inr (Some (pages ! i))" using pages by simp
  have l1: "0 + length ?qs < n" using less unfolding q by simp
  have o1: "\<forall>d \<in> set ?qs. \<exists>p. process_doc nl vocab d = Some (Inr p)" using y(2) unfolding q by simp
  have l2: "(0 + length ?qs) + length (qualifying pre) < n" using less unfolding q by simp
  have o2: "\<forall>d \<in> set (qualifying pre). \<exists>p. process_doc nl vocab d = Some (Inr p)"
    using y(2) unfolding q by simp
  have scan: "scan_page nl vocab n (pre @ doc # post) (0 + length ?qs) ([] @ map (yield_of nl vocab) ?qs) =
      Raised e ps"
    using scan_page_prefix [OF l2 o2, of "doc # post" "[] @ map (yield_of nl vocab) ?qs"] bad y(1)
    unfolding q by simp
  have "get_docs nl vocab api url n =
      get_docs_loop nl vocab api ?url n (0 + length ?qs) (1 + length pages) ([] @ map (yield_of nl vocab) ?qs)"
    unfolding get_docs_def
    by (rule get_docs_loop_pages [where pages = pages and page = 1 and yielded = 0 and api = api and url = "?url"
          and n = n and nl = nl and vocab = vocab, OF p1 l1 o1])
  also have "\<dots> = Some (ps, Some e)"
    using last l1 scan by (subst get_docs_loop.simps) simp
  finally show ?thesis .
qed

lemma get_docs_first_n:
  assumes pages: "\<forall>i<length pages. api (url @ '',type:journal-article&page='') (Suc i) = Inr (Some (pages ! i))"
    and stop: "n \<le> length (qualifying (concat pages)) \<or>
        api (url @ '',type:journal-article&page='') (Suc (length pages)) = Inr None"
    and ok: "map (process_doc nl vocab) (take n (qualifying (concat pages))) = map (\<lambda>p. Some (Inr p)) ps"
  shows "get_docs nl vocab api url n = Some (ps, None)"
proof -
  let ?url = "url @ '',type:journal-article&page=''"
  note y = yields_eq [OF ok]
  have p1: "\<forall>i<length pages. api ?url (1 + i) = Inr (Some (pages ! i))" using pages by simp
  have s1: "n \<le> 0 + length (qualifying (concat pages)) \<or> api ?url (1 + length pages) = Inr None"
    using stop by simp
  have o1: "\<forall>d \<in> set (take (n - 0) (qualifying (concat pages))). \<exists>p. process_doc nl vocab d = Some (Inr p)"
    using y(2) by simp
  from get_docs_loop_ok [where pages = pages and page = 1 and yielded = 0 and acc = "[]"
      and api = api and url = "?url" and n = n and nl = nl and vocab = vocab, OF p1 s1 o1]
    y(1) show ?thesis
    by (simp add: get_docs_def)
qed

lemma scan_page_no_qualifying:
  "qualifying docs = [] \<Longrightarrow> scan_page nl vocab n docs yielded acc = NextPage yielded acc"
  by (induction docs) (auto simp: qualifying_def process_doc_def split: if_splits)

lemma get_docs_loop_never_returns:
  assumes "\<forall>page. \<exists>docs. api url page = Inr (Some docs) \<and> qualifying docs = []"
    and "yielded < n"
  shows "get_docs_loop nl vocab api url n yielded page acc = None"
proof (rule ccontr)
  assume "get_docs_loop nl vocab api url n yielded page acc \<noteq> None"
  then obtain r where r: "get_docs_loop nl vocab api url n yielded page acc = Some r" by auto
  from r have "\<not> ((\<forall>page. \<exists>docs. api url page = Inr (Some docs) \<and> qualifying docs = []) \<and> yielded < n)"
  proof (rule get_docs_loop.raw_induct [rotated 1, where P = "\<lambda>nl vocab api url n yielded page acc r.
      \<not> ((\<forall>page. \<exists>docs. api url page = Inr (Some docs) \<and> qualifying docs = []) \<and> yielded < n)"])
    fix loop nl vocab and api :: "'a api" and url n yielded page acc r
    assume IH: "\<And>nl vocab api url n yielded page acc r.
        loop nl vocab (api :: 'a api) url n yielded page acc = Some r \<Longrightarrow>
        \<not> ((\<forall>page. \<exists>docs. api url page = Inr (Some docs) \<and> qualifying docs = []) \<and> yielded < n)"
      and step: "(if yielded < n
         then case api url page of Inl e \<Rightarrow> Some (acc, Some e)
           | Inr None \<Rightarrow> Some (acc, None)
           | Inr (Some results) \<Rightarrow>
               (case scan_page nl vocab n results yielded acc of
                  NextPage yielded' acc' \<Rightarrow> loop nl vocab api url n yielded' (page + 1) acc'
                | Returned acc' \<Rightarrow> Some (acc', None)
                | Raised e acc' \<Rightarrow> Some (acc', Some e))
         else Some (acc, None)) = Some r"
    show "\<not> ((\<forall>page. \<exists>docs. api url page = Inr (Some docs) \<and> qualifying docs = []) \<and> yielded < n)"
    proof
      assume h: "(\<forall>page. \<exists>docs. api url page = Inr (Some docs) \<and> qualifying docs = []) \<and> yielded < n"
      then obtain docs where docs: "api url page = Inr (Some docs)" "qualifying docs = []" by blast
      from step h docs have "loop nl vocab api url n yielded (page + 1) acc = Some r"
        by (simp add: scan_page_no_qualifying)
      from IH [OF this] h show False by blast
    qed
  qed
  with assms show False by blast
qed

lemma process_titled: "process_doc plain_nlp {} titled_work = Some (Inr \<lparr>data = [], subjects = []\<rparr>)"
  by (simp add: process_doc_def titled_work_def process_texts_def plain_nlp_def build_abstract_def
      n_words_def append_words_at_def terminate_abstract_def rank_lemmas_def most_common_def
      vocab_lemmas_def Counter_def counter_get_def concept_scores_def tag_dict_def)

lemma process_untitled: "process_doc plain_nlp {} untitled_work = Some (Inl TypeError)"
  by (simp add: process_doc_def untitled_work_def process_texts_def)

lemma get_docs_untitled_first:
  "get_docs plain_nlp {} untitled_first_api url 2 = Some ([], Some TypeError)"
  unfolding get_docs_def
  by (subst get_docs_loop.simps) (simp add: untitled_first_api_def process_untitled)

lemma qualifying_two_pages:
  "qualifying [titled_work, unabstracted_work, titled_work] = [titled_work, titled_work]"
  by (simp add: qualifying_def titled_work_def unabstracted_work_def)

text \<open>
  Claim C4, as amended. Let the pages 1 to \<open>k\<close> of the subject be fetched without exception
  and each hold a \<^verbatim>\<open>'results'\<close> field, and let either these pages hold at least \<open>n\<close> qualifying
  documents, or page \<open>k + 1\<close> lack the field; let the processing of the first \<open>n\<close> qualifying
  documents raise no exception. Then \<open>get_docs\<close> returns, and it has yielded the first \<open>n\<close>
  qualifying documents of these pages, processed, in their order, or all of them when
  they are fewer than \<open>n\<close>: what was yielded before the page without \<^verbatim>\<open>'results'\<close> is kept.
  Documents with a null abstract are passed over and are not counted.
\<close>

theorem get_docs_yields_first_n_qualifying:
  assumes "\<forall>i<length pages. api (url @ '',type:journal-article&page='') (Suc i) = Inr (Some (pages ! i))"
    and "n \<le> length (qualifying (concat pages)) \<or>
        api (url @ '',type:journal-article&page='') (Suc (length pages)) = Inr None"
    and "map (process_doc nl vocab) (take n (qualifying (concat pages))) = map (\<lambda>p. Some (Inr p)) ps"
  shows "get_docs nl vocab api url n = Some (ps, None) \<and>
    length ps = min n (length (qualifying (concat pages)))"
proof
  show "get_docs nl vocab api url n = Some (ps, None)"
    using assms by (rule get_docs_first_n)
  from arg_cong [OF assms(3), of length]
  show "length ps = min n (length (qualifying (concat pages)))" by simp
qed

theorem get_docs_yields_first_n_qualifying_witness:
  "get_docs plain_nlp {} two_pages_api ''u'' 5 =
     Some ([\<lparr>data = [], subjects = []\<rparr>, \<lparr>data = [], subjects = []\<rparr>], None) \<and>
   get_docs plain_nlp {} two_pages_api ''u'' 1 = Some ([\<lparr>data = [], subjects = []\<rparr>], None)"
proof
  have p: "\<forall>i<length [[titled_work, unabstracted_work], [titled_work]].
      two_pages_api (''u'' @ '',type:journal-article&page='') (Suc i) =
        Inr (Some ([[titled_work, unabstracted_work], [titled_work]] ! i))"
    by (simp add: two_pages_api_def less_Suc_eq)
  have s5: "5 \<le> length (qualifying (concat [[titled_work, unabstracted_work], [titled_work]])) \<or>
      two_pages_api (''u'' @ '',type:journal-article&page='')
        (Suc (length [[titled_work, unabstracted_work], [titled_work]])) = Inr None"
    by (simp add: two_pages_api_def)
  have o5: "map (process_doc plain_nlp {})
      (take 5 (qualifying (concat [[titled_work, unabstracted_work], [titled_work]]))) =
      map (\<lambda>p. Some (Inr p)) [\<lparr>data = [], subjects = []\<rparr>, \<lparr>data = [], subjects = []\<rparr>]"
    by (simp add: qualifying_two_pages process_titled)
  from get_docs_yields_first_n_qualifying [where api = two_pages_api and url = "''u''" and nl = plain_nlp and vocab = "{}", OF p s5 o5]
  show "get_docs plain_nlp {} two_pages_api ''u'' 5 =
     Some ([\<lparr>data = [], subjects = []\<rparr>, \<lparr>data = [], subjects = []\<rparr>], None)"
    by simp
  have s1: "1 \<le> length (qualifying (concat [[titled_work, unabstracted_work], [titled_work]])) \<or>
      two_pages_api (''u'' @ '',type:journal-article&page='')
        (Suc (length [[titled_work, unabstracted_work], [titled_work]])) = Inr None"
    by (simp add: two_pages_api_def)
  have o1: "map (process_doc plain_nlp {})
      (take 1 (qualifying (concat [[titled_work, unabstracted_work], [titled_work]]))) =
      map (\<lambda>p. Some (Inr p)) [\<lparr>data = [], subjects = []\<rparr>]"
    by (simp add: qualifying_two_pages process_titled)
  from get_docs_yields_first_n_qualifying [where api = two_pages_api and url = "''u''" and nl = plain_nlp and vocab = "{}", OF p s1 o1]
  show "get_docs plain_nlp {} two_pages_api ''u'' 1 = Some ([\<lparr>data = [], subjects = []\<rparr>], None)"
    by simp
qed

text \<open>
  Claim C4, as stated, fails in two ways. When every page has a \<^verbatim>\<open>'results'\<close> field and the
  pages never hold a qualifying document, \<open>get_docs\<close> never returns, although no page lacks
  the field. When a qualifying document has a null title, \<open>get_docs\<close> ends with a
  \<^verbatim>\<open>TypeError\<close> and has yielded fewer than \<open>n\<close> documents.
\<close>

theorem get_docs_exactly_n_counterexample:
  "get_docs plain_nlp {} empty_pages_api ''u'' 1 = None \<and>
   get_docs plain_nlp {} untitled_first_api ''u'' 1 = Some ([], Some TypeError)"
proof
  show "get_docs plain_nlp {} empty_pages_api ''u'' 1 = None"
    unfolding get_docs_def
    by (rule get_docs_loop_never_returns) (simp_all add: empty_pages_api_def qualifying_def)
  show "get_docs plain_nlp {} untitled_first_api ''u'' 1 = Some ([], Some TypeError)"
    unfolding get_docs_def
    by (subst get_docs_loop.simps) (simp add: untitled_first_api_def process_untitled)
qed


section \<open>The run\<close>

lemma main_loop_Cons_cases:
  assumes "main_loop nl vocab api done n_docs n_file ((subject, url) # rest) batch cnt file_nr dumped = Some r"
  obtains
    (skip) "subject \<in> set done"
      "main_loop nl vocab api done n_docs n_file rest batch cnt file_nr dumped = Some r"
  | (raise) docs e where "subject \<notin> set done"
      "get_docs nl vocab api url n_docs = Some (docs, Some e)"
      "r = ((batch, cnt, file_nr, dumped), Some e)"
  | (flush) docs where "subject \<notin> set done"
      "get_docs nl vocab api url n_docs = Some (docs, None)"
      "n_file \<le> cnt + length docs"
      "main_loop nl vocab api done n_docs n_file rest [] 0 (file_nr + 1)
         (dumped @ [(file_nr, AList.update subject docs batch)]) = Some r"
  | (keep) docs where "subject \<notin> set done"
      "get_docs nl vocab api url n_docs = Some (docs, None)"
      "cnt + length docs < n_file"
      "main_loop nl vocab api done n_docs n_file rest (AList.update subject docs batch)
         (cnt + length docs) file_nr dumped = Some r"
proof (cases "subject \<in> set done")
  case True
  with assms skip show ?thesis by simp
next
  case False
  show ?thesis
  proof (cases "get_docs nl vocab api url n_docs")
    case None
    with assms False show ?thesis by simp
  next
    case (Some res)
    obtain docs exc where res: "res = (docs, exc)" by (cases res)
    show ?thesis
    proof (cases exc)
      case (Some e)
      with assms False \<open>get_docs nl vocab api url n_docs = Some res\<close> res raise show ?thesis by simp
    next
      case None
      note g = \<open>get_docs nl vocab api url n_docs = Some res\<close> [unfolded res None]
      show ?thesis
      proof (cases "n_file \<le> cnt + length docs")
        case True
        with assms False g flush [of docs] show ?thesis by (simp add: Let_def)
      next
        case False
        with assms \<open>subject \<notin> set done\<close> g keep [of docs] show ?thesis by (simp add: Let_def)
      qed
    qed
  qed
qed

lemma n_records_append: "n_records (xs @ ys) = n_records xs + n_records ys"
  by (simp add: n_records_def)

lemma main_loop_threshold:
  assumes "main_loop nl vocab api done n_docs n_file subjs batch cnt file_nr dumped =
      Some ((batch', cnt', file_nr', dumped'), exc)"
    and "distinct (map fst subjs)"
    and "set (map fst subjs) \<inter> set (map fst batch) = {}"
    and "cnt = n_records batch"
    and "batch = [] \<or> cnt < n_file"
    and "\<forall>u \<in> set dumped. n_file \<le> n_records (snd u)"
  shows "(\<forall>u \<in> set dumped'. n_file \<le> n_records (snd u)) \<and> cnt' = n_records batch' \<and>
    (batch' = [] \<or> cnt' < n_file)"
  using assms
proof (induction subjs arbitrary: batch cnt file_nr dumped)
  case Nil
  then show ?case by auto
next
  case (Cons x rest)
  obtain subject url where x: "x = (subject, url)" by (cases x)
  from Cons.prems(2) x have dr: "distinct (map fst rest)" and nin: "subject \<notin> set (map fst rest)"
    by simp_all
  from Cons.prems(3) x have fresh: "subject \<notin> fst ` set batch" by auto
  from Cons.prems(3) x have disj: "set (map fst rest) \<inter> set (map fst batch) = {}" by auto
  from Cons.prems(1) [unfolded x] show ?case
  proof (cases rule: main_loop_Cons_cases)
    case skip
    from Cons.IH [OF skip(2) dr disj Cons.prems(4,5,6)] show ?thesis .
  next
    case (raise docs e)
    with Cons.prems show ?thesis by simp
  next
    case (flush docs)
    have "n_file \<le> n_records (AList.update subject docs batch)"
      using flush(3) Cons.prems(4) fresh by (simp add: update_fresh n_records_append n_records_def)
    with Cons.prems(6)
    have d: "\<forall>u \<in> set (dumped @ [(file_nr, AList.update subject docs batch)]). n_file \<le> n_records (snd u)"
      by simp
    have e: "set (map fst rest) \<inter> set (map fst []) = {}" by simp
    have c: "0 = n_records []" by (simp add: n_records_def)
    have b: "[] = [] \<or> 0 < n_file" by simp
    from Cons.IH [OF flush(4) dr e c b d] show ?thesis .
  next
    case (keep docs)
    have u: "AList.update subject docs batch = batch @ [(subject, docs)]"
      using fresh by (rule update_fresh)
    have c: "cnt + length docs = n_records (AList.update subject docs batch)"
      using Cons.prems(4) unfolding u by (simp add: n_records_append n_records_def)
    have e: "set (map fst rest) \<inter> set (map fst (AList.update subject docs batch)) = {}"
      using disj nin unfolding u by auto
    from keep(3) have b: "AList.update subject docs batch = [] \<or> cnt + length docs < n_file" by simp
    from Cons.IH [OF keep(4) dr e c b Cons.prems(6)] show ?thesis .
  qed
qed

lemma main_loop_flush_boundary:
  assumes "main_loop nl vocab api done n_docs n_file subjs batch cnt file_nr dumped =
      Some ((batch', cnt', file_nr', dumped'), exc)"
    and "distinct (map fst subjs)"
    and "set (map fst subjs) \<inter> set (map fst batch) = {}"
    and "cnt = n_records batch"
    and "batch = [] \<or> cnt < n_file"
    and "\<forall>u \<in> set dumped. snd u \<noteq> [] \<and>
        (butlast (snd u) = [] \<or> n_records (butlast (snd u)) < n_file)"
  shows "\<forall>u \<in> set dumped'. snd u \<noteq> [] \<and>
        (butlast (snd u) = [] \<or> n_records (butlast (snd u)) < n_file)"
  using assms
proof (induction subjs arbitrary: batch cnt file_nr dumped)
  case Nil
  then show ?case by auto
next
  case (Cons x rest)
  obtain subject url where x: "x = (subject, url)" by (cases x)
  from Cons.prems(2) x have dr: "distinct (map fst rest)" and nin: "subject \<notin> set (map fst rest)"
    by simp_all
  from Cons.prems(3) x have fresh: "subject \<notin> fst ` set batch" by auto
  from Cons.prems(3) x have disj: "set (map fst rest) \<inter> set (map fst batch) = {}" by auto
  have u: "AList.update subject docs batch = batch @ [(subject, docs)]" for docs
    using fresh by (rule update_fresh)
  from Cons.prems(1) [unfolded x] show ?case
  proof (cases rule: main_loop_Cons_cases)
    case skip
    from Cons.IH [OF skip(2) dr disj Cons.prems(4,5,6)] show ?thesis .
  next
    case (raise docs e)
    with Cons.prems(6) show ?thesis by simp
  next
    case (flush docs)
    have new: "snd (file_nr, AList.update subject docs batch) \<noteq> [] \<and>
        (butlast (snd (file_nr, AList.update subject docs batch)) = [] \<or>
         n_records (butlast (snd (file_nr, AList.update subject docs batch))) < n_file)"
      using Cons.prems(4,5) unfolding u by simp
    with Cons.prems(6)
    have d: "\<forall>u \<in> set (dumped @ [(file_nr, AList.update subject docs batch)]). snd u \<noteq> [] \<and>
        (butlast (snd u) = [] \<or> n_records (butlast (snd u)) < n_file)"
      by simp
    have e: "set (map fst rest) \<inter> set (map fst []) = {}" by simp
    have c: "0 = n_records []" by (simp add: n_records_def)
    have b: "[] = [] \<or> 0 < n_file" by simp
    from Cons.IH [OF flush(4) dr e c b d] show ?thesis .
  next
    case (keep docs)
    have c: "cnt + length docs = n_records (AList.update subject docs batch)"
      using Cons.prems(4) unfolding u by (simp add: n_records_append n_records_def)
    have e: "set (map fst rest) \<inter> set (map fst (AList.update subject docs batch)) = {}"
      using disj nin unfolding u by auto
    from keep(3) have b: "AList.update subject docs batch = [] \<or> cnt + length docs < n_file" by simp
    from Cons.IH [OF keep(4) dr e c b Cons.prems(6)] show ?thesis .
  qed
qed

lemma main_loop_subjects:
  assumes "main_loop nl vocab api done n_docs n_file subjs batch cnt file_nr dumped =
      Some ((batch', cnt', file_nr', dumped'), exc)"
    and "distinct (map fst subjs)"
    and "set (map fst subjs) \<inter> set (map fst batch) = {}"
  shows "\<exists>processed.
      concat (map unit_subjects dumped') @ map fst batch' =
        concat (map unit_subjects dumped) @ map fst batch @ processed \<and>
      prefix processed (filter (\<lambda>s. s \<notin> set done) (map fst subjs)) \<and>
      (exc = None \<longrightarrow> processed = filter (\<lambda>s. s \<notin> set done) (map fst subjs))"
  using assms
proof (induction subjs arbitrary: batch cnt file_nr dumped)
  case Nil
  then show ?case by auto
next
  case (Cons x rest)
  obtain subject url where x: "x = (subject, url)" by (cases x)
  from Cons.prems(2) x have dr: "distinct (map fst rest)" and nin: "subject \<notin> set (map fst rest)"
    by simp_all
  from Cons.prems(3) x have fresh: "subject \<notin> fst ` set batch" by auto
  from Cons.prems(3) x have disj: "set (map fst rest) \<inter> set (map fst batch) = {}" by auto
  have u: "AList.update subject docs batch = batch @ [(subject, docs)]" for docs
    using fresh by (rule update_fresh)
  from Cons.prems(1) [unfolded x] show ?case
  proof (cases rule: main_loop_Cons_cases)
    case skip
    from Cons.IH [OF skip(2) dr disj] skip(1) x show ?thesis by simp
  next
    case (raise docs e)
    then show ?thesis by (intro exI [of _ "[]"]) simp
  next
    case (flush docs)
    have e: "set (map fst rest) \<inter> set (map fst []) = {}" by simp
    have us: "unit_subjects (file_nr, b) = map fst b" for b :: "'a batch"
      by (simp add: unit_subjects_def)
    from Cons.IH [OF flush(4) dr e] show ?thesis
    proof (elim exE conjE)
      fix processed
      assume "concat (map unit_subjects dumped') @ map fst batch' =
          concat (map unit_subjects (dumped @ [(file_nr, AList.update subject docs batch)])) @ map fst [] @ processed"
        and "prefix processed (filter (\<lambda>s. s \<notin> set done) (map fst rest))"
        and "exc = None \<longrightarrow> processed = filter (\<lambda>s. s \<notin> set done) (map fst rest)"
      then show ?thesis
        using flush(1) x us unfolding u
        by (intro exI [of _ "subject # processed"]) simp
    qed
  next
    case (keep docs)
    have e: "set (map fst rest) \<inter> set (map fst (AList.update subject docs batch)) = {}"
      using disj nin unfolding u by auto
    from Cons.IH [OF keep(4) dr e] show ?thesis
    proof (elim exE conjE)
      fix processed
      assume "concat (map unit_subjects dumped') @ map fst batch' =
          concat (map unit_subjects dumped) @ map fst (AList.update subject docs batch) @ processed"
        and "prefix processed (filter (\<lambda>s. s \<notin> set done) (map fst rest))"
        and "exc = None \<longrightarrow> processed = filter (\<lambda>s. s \<notin> set done) (map fst rest)"
      then show ?thesis
        using keep(1) x unfolding u
        by (intro exI [of _ "subject # processed"]) simp
    qed
  qed
qed

lemma main_loop_complete_subjects:
  assumes "main_loop nl vocab api done n_docs n_file subjs batch cnt file_nr dumped =
      Some ((batch', cnt', file_nr', dumped'), exc)"
    and "distinct (map fst subjs)"
    and "set (map fst subjs) \<inter> set (map fst batch) = {}"
  shows "set batch' \<union> (\<Union>u \<in> set dumped'. set (snd u)) \<subseteq>
      set batch \<union> (\<Union>u \<in> set dumped. set (snd u)) \<union>
      {(s, docs). \<exists>url. (s, url) \<in> set subjs \<and> get_docs nl vocab api url n_docs = Some (docs, None)}"
proof -
  define F where "F subjs = {(s, docs). \<exists>url. (s, url) \<in> set subjs \<and>
    get_docs nl vocab api url n_docs = Some (docs, None)}" for subjs :: "(string \<times> string) list"
  define D where "D dumped = (\<Union>u \<in> set dumped. set (snd u))" for dumped :: "(nat \<times> 'a batch) list"
  have D_snoc: "D (dumped @ [(nr, b)]) = D dumped \<union> set b" for dumped nr b
    by (auto simp: D_def)
  have "set batch' \<union> D dumped' \<subseteq> set batch \<union> D dumped \<union> F subjs"
    using assms
  proof (induction subjs arbitrary: batch cnt file_nr dumped)
    case Nil
    then have "batch' = batch" "dumped' = dumped" by simp_all
    then show ?case by blast
  next
    case (Cons x rest)
    obtain subject url where x: "x = (subject, url)" by (cases x)
    from Cons.prems(2) x have dr: "distinct (map fst rest)" and nin: "subject \<notin> set (map fst rest)"
      by simp_all
    from Cons.prems(3) x have fresh: "subject \<notin> fst ` set batch" by auto
    from Cons.prems(3) x have disj: "set (map fst rest) \<inter> set (map fst batch) = {}" by auto
    have u: "set (AList.update subject docs batch) = set batch \<union> {(subject, docs)}" for docs
      using update_fresh [OF fresh, of docs] by simp
    have mono: "F rest \<subseteq> F (x # rest)" unfolding F_def by auto
    have new: "(subject, docs) \<in> F (x # rest)"
      if "get_docs nl vocab api url n_docs = Some (docs, None)" for docs
      unfolding F_def using that x by auto
    from Cons.prems(1) [unfolded x] show ?case
    proof (cases rule: main_loop_Cons_cases)
      case skip
      from Cons.IH [OF skip(2) dr disj] mono show ?thesis by blast
    next
      case (raise docs e)
      then have "batch' = batch" "dumped' = dumped" by simp_all
      then show ?thesis by blast
    next
      case (flush docs)
      have e: "set (map fst rest) \<inter> set (map fst []) = {}" by simp
      have e2: "set (map fst rest) \<inter> set (map fst (AList.update subject docs batch)) = {}"
        using disj nin by (simp add: update_fresh [OF fresh])
      from Cons.IH [OF flush(4) dr e] mono new [OF flush(2)] show ?thesis
        unfolding D_snoc u by auto
    next
      case (keep docs)
      have e: "set (map fst rest) \<inter> set (map fst (AList.update subject docs batch)) = {}"
        using disj nin by (simp add: update_fresh [OF fresh])
      from Cons.IH [OF keep(4) dr e] mono new [OF keep(2)] show ?thesis
        unfolding u by auto
    qed
  qed
  then show ?thesis unfolding F_def D_def .
qed

lemma main_loop_append:
  "main_loop nl vocab api done n_docs n_file (xs @ ys) batch cnt file_nr dumped =
     (case main_loop nl vocab api done n_docs n_file xs batch cnt file_nr dumped of
        None \<Rightarrow> None
      | Some (st, Some e) \<Rightarrow> Some (st, Some e)
      | Some ((batch', cnt', file_nr', dumped'), None) \<Rightarrow>
          main_loop nl vocab api done n_docs n_file ys batch' cnt' file_nr' dumped')"
proof (induction xs arbitrary: batch cnt file_nr dumped)
  case Nil
  show ?case by simp
next
  case (Cons x xs)
  obtain subject url where x: "x = (subject, url)" by (cases x)
  show ?case
  proof (cases "get_docs nl vocab api url n_docs")
    case None
    then show ?thesis unfolding x by (simp add: Cons.IH)
  next
    case (Some res)
    obtain docs exc where res: "res = (docs, exc)" by (cases res)
    show ?thesis
    proof (cases exc)
      case None
      with Some res show ?thesis unfolding x by (simp add: Cons.IH Let_def)
    next
      case (Some e)
      with \<open>get_docs nl vocab api url n_docs = Some res\<close> res show ?thesis
        unfolding x by (simp add: Cons.IH)
    qed
  qed
qed

lemma main_loop_skips_done:
  "main_loop nl vocab api done n_docs n_file subjs batch cnt file_nr dumped =
   main_loop nl vocab api [] n_docs n_file (filter (\<lambda>(subject, url). subject \<notin> set done) subjs)
     batch cnt file_nr dumped"
proof (induction subjs arbitrary: batch cnt file_nr dumped)
  case Nil
  show ?case by simp
next
  case (Cons x subjs)
  obtain subject url where x: "x = (subject, url)" by (cases x)
  show ?case unfolding x
    by (simp add: Cons.IH Let_def split: option.splits prod.splits)
qed

lemma get_done_subjects_fold:
  "fold (\<lambda>(file, content) done. done @ map fst content) dir acc =
     acc @ concat (map (\<lambda>(file, content). map fst content) dir)"
  by (induction dir arbitrary: acc) auto

lemma get_done_subjects_set:
  "set (get_done_subjects dir) = (\<Union>(file, content) \<in> set dir. fst ` set content)"
  unfolding get_done_subjects_def get_done_subjects_fold by auto

lemma main_cases:
  assumes "main nl vocab api dir subjs n_docs n_file = Some (units, exc)"
  obtains batch cnt file_nr dumped where
    "main_loop nl vocab api (get_done_subjects dir) n_docs n_file subjs [] 0 1 [] =
       Some ((batch, cnt, file_nr, dumped), exc)"
    "units = dumped @ (if exc = None \<and> batch \<noteq> [] then [(file_nr, batch)] else [])"
proof (cases "main_loop nl vocab api (get_done_subjects dir) n_docs n_file subjs [] 0 1 []")
  case None
  with assms show ?thesis by (simp add: main_def)
next
  case (Some r)
  obtain batch cnt file_nr dumped e where r: "r = ((batch, cnt, file_nr, dumped), e)"
    by (cases r) auto
  show ?thesis
  proof (cases e)
    case None
    with assms Some r have "exc = None" "units = dumped @ (if batch \<noteq> [] then [(file_nr, batch)] else [])"
      by (auto simp: main_def)
    with Some r None that [of batch cnt file_nr dumped] show ?thesis by simp
  next
    case (Some e')
    with assms \<open>main_loop nl vocab api (get_done_subjects dir) n_docs n_file subjs [] 0 1 [] = Some r\<close> r
    have "exc = Some e'" "units = dumped" by (auto simp: main_def)
    with Some r \<open>main_loop nl vocab api (get_done_subjects dir) n_docs n_file subjs [] 0 1 [] = Some r\<close>
      that [of batch cnt file_nr dumped] show ?thesis by simp
  qed
qed

lemma main_subjects:
  assumes "main nl vocab api dir subjs n_docs n_file = Some (units, exc)"
    and "distinct (map fst subjs)"
  shows "prefix (concat (map unit_subjects units))
      (filter (\<lambda>s. s \<notin> set (get_done_subjects dir)) (map fst subjs))"
    and "exc = None \<Longrightarrow> concat (map unit_subjects units) =
      filter (\<lambda>s. s \<notin> set (get_done_subjects dir)) (map fst subjs)"
proof -
  from assms(1) obtain batch cnt file_nr dumped where
    loop: "main_loop nl vocab api (get_done_subjects dir) n_docs n_file subjs [] 0 1 [] =
       Some ((batch, cnt, file_nr, dumped), exc)"
    and units: "units = dumped @ (if exc = None \<and> batch \<noteq> [] then [(file_nr, batch)] else [])"
    by (rule main_cases)
  have "set (map fst subjs) \<inter> set (map fst ([] :: 'a batch)) = {}" by simp
  from main_loop_subjects [OF loop assms(2) this] obtain processed where
    p: "concat (map unit_subjects dumped) @ map fst batch = processed"
      "prefix processed (filter (\<lambda>s. s \<notin> set (get_done_subjects dir)) (map fst subjs))"
      "exc = None \<longrightarrow> processed = filter (\<lambda>s. s \<notin> set (get_done_subjects dir)) (map fst subjs)"
    by auto
  have full: "concat (map unit_subjects units) = processed" if "exc = None"
    using that units p(1) by (auto simp: unit_subjects_def)
  have pre: "prefix (concat (map unit_subjects units)) processed"
    using units p(1) by (auto simp: unit_subjects_def)
  from pre p(2) show "prefix (concat (map unit_subjects units))
      (filter (\<lambda>s. s \<notin> set (get_done_subjects dir)) (map fst subjs))"
    by (rule prefix_order.trans)
  show "concat (map unit_subjects units) =
      filter (\<lambda>s. s \<notin> set (get_done_subjects dir)) (map fst subjs)" if "exc = None"
    using full [OF that] p(3) that by simp
qed

lemma distinct_concat_nth:
  "distinct (concat xss) \<Longrightarrow> i < j \<Longrightarrow> j < length xss \<Longrightarrow> set (xss ! i) \<inter> set (xss ! j) = {}"
proof (induction xss arbitrary: i j)
  case Nil
  then show ?case by simp
next
  case (Cons xs xss)
  from Cons.prems obtain j' where j: "j = Suc j'" by (cases j) auto
  show ?case
  proof (cases i)
    case 0
    from Cons.prems j have "xss ! j' \<in> set xss" by simp
    with Cons.prems(1) have "set xs \<inter> set (xss ! j') = {}" by auto
    with 0 j show ?thesis by simp
  next
    case (Suc i')
    with Cons j show ?thesis by simp
  qed
qed

lemma qualifying_replicate: "qualifying (replicate k titled_work) = replicate k titled_work"
  by (simp add: qualifying_def titled_work_def)

lemma get_docs_six:
  "get_docs plain_nlp {} six_seven_api ''u1'' 50 = Some (replicate 6 \<lparr>data = [], subjects = []\<rparr>, None)"
proof (rule get_docs_first_n [where pages = "[replicate 6 titled_work]"])
  show "\<forall>i<length [replicate 6 titled_work].
      six_seven_api (''u1'' @ '',type:journal-article&page='') (Suc i) = Inr (Some ([replicate 6 titled_work] ! i))"
    by (simp add: six_seven_api_def)
  show "50 \<le> length (qualifying (concat [replicate 6 titled_work])) \<or>
      six_seven_api (''u1'' @ '',type:journal-article&page='') (Suc (length [replicate 6 titled_work])) = Inr None"
    by (simp add: six_seven_api_def)
  show "map (process_doc plain_nlp {}) (take 50 (qualifying (concat [replicate 6 titled_work]))) =
      map (\<lambda>p. Some (Inr p)) (replicate 6 \<lparr>data = [], subjects = []\<rparr>)"
    by (simp add: qualifying_replicate process_titled)
qed

lemma get_docs_seven:
  "get_docs plain_nlp {} six_seven_api ''u2'' 50 = Some (replicate 7 \<lparr>data = [], subjects = []\<rparr>, None)"
proof (rule get_docs_first_n [where pages = "[replicate 7 titled_work]"])
  show "\<forall>i<length [replicate 7 titled_work].
      six_seven_api (''u2'' @ '',type:journal-article&page='') (Suc i) = Inr (Some ([replicate 7 titled_work] ! i))"
    by (simp add: six_seven_api_def)
  show "50 \<le> length (qualifying (concat [replicate 7 titled_work])) \<or>
      six_seven_api (''u2'' @ '',type:journal-article&page='') (Suc (length [replicate 7 titled_work])) = Inr None"
    by (simp add: six_seven_api_def)
  show "map (process_doc plain_nlp {}) (take 50 (qualifying (concat [replicate 7 titled_work]))) =
      map (\<lambda>p. Some (Inr p)) (replicate 7 \<lparr>data = [], subjects = []\<rparr>)"
    by (simp add: qualifying_replicate process_titled)
qed

lemma get_docs_seven_u3:
  "get_docs plain_nlp {} six_seven_api ''u3'' 50 = Some (replicate 7 \<lparr>data = [], subjects = []\<rparr>, None)"
proof (rule get_docs_first_n [where pages = "[replicate 7 titled_work]"])
  show "\<forall>i<length [replicate 7 titled_work].
      six_seven_api (''u3'' @ '',type:journal-article&page='') (Suc i) = Inr (Some ([replicate 7 titled_work] ! i))"
    by (simp add: six_seven_api_def)
  show "50 \<le> length (qualifying (concat [replicate 7 titled_work])) \<or>
      six_seven_api (''u3'' @ '',type:journal-article&page='') (Suc (length [replicate 7 titled_work])) = Inr None"
    by (simp add: six_seven_api_def)
  show "map (process_doc plain_nlp {}) (take 50 (qualifying (concat [replicate 7 titled_work]))) =
      map (\<lambda>p. Some (Inr p)) (replicate 7 \<lparr>data = [], subjects = []\<rparr>)"
    by (simp add: qualifying_replicate process_titled)
qed

lemma get_docs_two_pages:
  "get_docs plain_nlp {} two_pages_api url 1 = Some ([\<lparr>data = [], subjects = []\<rparr>], None)"
proof (rule get_docs_first_n [where pages = "[[titled_work, unabstracted_work]]"])
  show "\<forall>i<length [[titled_work, unabstracted_work]].
      two_pages_api (url @ '',type:journal-article&page='') (Suc i) =
        Inr (Some ([[titled_work, unabstracted_work]] ! i))"
    by (simp add: two_pages_api_def)
  show "1 \<le> length (qualifying (concat [[titled_work, unabstracted_work]])) \<or>
      two_pages_api (url @ '',type:journal-article&page='') (Suc (length [[titled_work, unabstracted_work]])) = Inr None"
    by (simp add: qualifying_def titled_work_def)
  show "map (process_doc plain_nlp {}) (take 1 (qualifying (concat [[titled_work, unabstracted_work]]))) =
      map (\<lambda>p. Some (Inr p)) [\<lparr>data = [], subjects = []\<rparr>]"
    by (simp add: qualifying_def titled_work_def unabstracted_work_def process_titled [unfolded titled_work_def])
qed


lemma get_docs_untitled_later_u1:
  "get_docs plain_nlp {} untitled_later_api ''u1'' 5 = Some ([\<lparr>data = [], subjects = []\<rparr>], None)"
proof (rule get_docs_first_n [where pages = "[[titled_work]]"])
  show "\<forall>i<length [[titled_work]].
      untitled_later_api (''u1'' @ '',type:journal-article&page='') (Suc i) = Inr (Some ([[titled_work]] ! i))"
    by (simp add: untitled_later_api_def)
  show "5 \<le> length (qualifying (concat [[titled_work]])) \<or>
      untitled_later_api (''u1'' @ '',type:journal-article&page='') (Suc (length [[titled_work]])) = Inr None"
    by (simp add: untitled_later_api_def)
  show "map (process_doc plain_nlp {}) (take 5 (qualifying (concat [[titled_work]]))) =
      map (\<lambda>p. Some (Inr p)) [\<lparr>data = [], subjects = []\<rparr>]"
    using qualifying_replicate [of 1] by (simp add: process_titled)
qed

text \<open>
  Claim C3, as amended. Neither \<open>get_docs\<close> nor \<open>main\<close> catches an exception. Let the subjects
  before a subject be processed without exception, let the pages of the subject before
  some page, and the documents of that page before some document, hold fewer than
  \<open>n_docs\<close> qualifying documents, all processed without exception, and let
  \<open>process_texts\<close> raise \<open>e\<close> on that document. Then \<open>get_docs\<close> ends with \<open>e\<close> after the documents
  yielded so far, and \<open>main\<close> ends with \<open>e\<close> as well: the units dumped before are all that
  is persisted, whatever documents and subjects come after.
\<close>

theorem exception_ends_get_docs_and_main:
  assumes before: "main_loop nl vocab api (get_done_subjects dir) n_docs n_file before [] 0 1 [] =
      Some ((batch, cnt, file_nr, dumped), None)"
    and todo: "subject \<notin> set (get_done_subjects dir)"
    and pages: "\<forall>i<length pages. api (url @ '',type:journal-article&page='') (Suc i) = Inr (Some (pages ! i))"
    and last: "api (url @ '',type:journal-article&page='') (Suc (length pages)) = Inr (Some (pre @ doc # post))"
    and less: "length (qualifying (concat pages @ pre)) < n_docs"
    and ok: "map (process_doc nl vocab) (qualifying (concat pages @ pre)) = map (\<lambda>p. Some (Inr p)) ps"
    and abstract: "abstract_inverted_index doc = Some abstract"
    and raised: "process_texts nl vocab (display_name doc) abstract = Inl e"
  shows "get_docs nl vocab api url n_docs = Some (ps, Some e) \<and>
    main nl vocab api dir (before @ (subject, url) # rest) n_docs n_file = Some (dumped, Some e)"
proof -
  from abstract raised have bad: "process_doc nl vocab doc = Some (Inl e)"
    by (simp add: process_doc_def)
  have g: "get_docs nl vocab api url n_docs = Some (ps, Some e)"
    using pages last less ok bad by (rule get_docs_raises)
  have "main_loop nl vocab api (get_done_subjects dir) n_docs n_file (before @ (subject, url) # rest) [] 0 1 [] =
      Some ((batch, cnt, file_nr, dumped), Some e)"
    using before todo g by (simp add: main_loop_append)
  then have "main nl vocab api dir (before @ (subject, url) # rest) n_docs n_file = Some (dumped, Some e)"
    by (simp add: main_def)
  with g show ?thesis by simp
qed

theorem exception_ends_get_docs_and_main_witness:
  "get_docs plain_nlp {} untitled_later_api ''u2'' 5 =
     Some ([\<lparr>data = [], subjects = []\<rparr>], Some TypeError) \<and>
   main plain_nlp {} untitled_later_api [] ([(''S1'', ''u1'')] @ (''S2'', ''u2'') # [(''S3'', ''u3'')]) 5 1 =
     Some ([(1, [(''S1'', [\<lparr>data = [], subjects = []\<rparr>])])], Some TypeError)"
proof -
  have b: "main_loop plain_nlp {} untitled_later_api (get_done_subjects []) 5 1 [(''S1'', ''u1'')] [] 0 1 [] =
      Some (([], 0, 2, [(1, [(''S1'', [\<lparr>data = [], subjects = []\<rparr>])])]), None)"
    by (simp add: get_docs_untitled_later_u1 get_done_subjects_def)
  have t: "''S2'' \<notin> set (get_done_subjects ([] :: (string \<times> nat batch) list))"
    by (simp add: get_done_subjects_def)
  have p: "\<forall>i<length ([] :: nat work list list).
      untitled_later_api (''u2'' @ '',type:journal-article&page='') (Suc i) = Inr (Some ([] ! i))"
    by simp
  have l: "untitled_later_api (''u2'' @ '',type:journal-article&page='') (Suc (length ([] :: nat work list list))) =
      Inr (Some ([titled_work] @ untitled_work # [titled_work]))"
    by (simp add: untitled_later_api_def)
  have q: "qualifying (concat ([] :: nat work list list) @ [titled_work]) = [titled_work]"
    using qualifying_replicate [of 1] by simp
  have s: "length (qualifying (concat ([] :: nat work list list) @ [titled_work])) < 5"
    unfolding q by simp
  have o: "map (process_doc plain_nlp {}) (qualifying (concat ([] :: nat work list list) @ [titled_work])) =
      map (\<lambda>p. Some (Inr p)) [\<lparr>data = [], subjects = []\<rparr>]"
    unfolding q by (simp add: process_titled)
  have a: "abstract_inverted_index untitled_work = Some [(''a'', [0])]"
    by (simp add: untitled_work_def)
  have r: "process_texts plain_nlp {} (display_name untitled_work) [(''a'', [0])] = Inl TypeError"
    by (simp add: process_texts_def untitled_work_def)
  from exception_ends_get_docs_and_main [where api = untitled_later_api and url = "''u2''" and nl = plain_nlp and vocab = "{}"
      and rest = "[(''S3'', ''u3'')]", OF b t p l s o a r]
  show ?thesis .
qed

text \<open>
  Claim C3, as stated, fails: the exception is not caught. The first article of the first
  subject has a null title; the article after it could be processed, and so could the
  second subject, but the run ends with the \<^verbatim>\<open>TypeError\<close> and has written no unit.
\<close>

theorem exception_not_caught_counterexample:
  "process_doc plain_nlp {} untitled_work = Some (Inl TypeError) \<and>
   process_doc plain_nlp {} titled_work = Some (Inr \<lparr>data = [], subjects = []\<rparr>) \<and>
   main plain_nlp {} untitled_first_api [] [(''S1'', ''u1''), (''S2'', ''u2'')] 2 1 =
     Some ([], Some TypeError)"
  by (simp add: main_def get_done_subjects_def get_docs_untitled_first process_titled process_untitled)

text \<open>
  Claim C5. The subjects are the keys of a dict, so they are distinct. The units of a run
  are the flushed units followed by at most one leftover unit. A flushed unit has at
  least \<open>n_file\<close> records, and without its last subject it is empty or has fewer than
  \<open>n_file\<close>: the flush happens at the end of the first subject with which the threshold is
  reached, not earlier and not later. The leftover unit is not empty and has fewer than
  \<open>n_file\<close> records. The documents under a subject in a unit are all the documents that
  \<open>get_docs\<close> yielded for that subject, so no flush happens within a subject, and the
  subjects of the units of a completed run are the subjects that are not done, in their
  order. With \<open>n_file = 10\<close> and two subjects that yield 6 and 7 documents, the run writes
  one unit, numbered 1, that holds both subjects and 13 records; with a third subject
  that yields 7 documents, that unit is followed by a unit, numbered 2, with the third
  subject alone.
\<close>

theorem flush_checked_after_each_subject:
  "(main nl vocab api dir subjs n_docs n_file = Some (units, exc) \<and> distinct (map fst subjs) \<longrightarrow>
      (\<exists>flushed leftover. units = flushed @ leftover \<and>
         (\<forall>u \<in> set flushed. n_file \<le> n_records (snd u)) \<and>
         (\<forall>u \<in> set flushed. snd u \<noteq> [] \<and>
            (butlast (snd u) = [] \<or> n_records (butlast (snd u)) < n_file)) \<and>
         length leftover \<le> 1 \<and>
         (\<forall>u \<in> set leftover. snd u \<noteq> [] \<and> n_records (snd u) < n_file)) \<and>
      (\<forall>u \<in> set units. \<forall>(subject, docs) \<in> set (snd u).
         \<exists>url. (subject, url) \<in> set subjs \<and> get_docs nl vocab api url n_docs = Some (docs, None)) \<and>
      (exc = None \<longrightarrow> concat (map unit_subjects units) =
         filter (\<lambda>subject. subject \<notin> set (get_done_subjects dir)) (map fst subjs))) \<and>
   (s1 \<noteq> s2 \<and> get_docs nl vocab api u1 n_docs = Some (d1, None) \<and> length d1 = 6 \<and>
    get_docs nl vocab api u2 n_docs = Some (d2, None) \<and> length d2 = 7 \<longrightarrow>
      main nl vocab api [] [(s1, u1), (s2, u2)] n_docs 10 = Some ([(1, [(s1, d1), (s2, d2)])], None) \<and>
      n_records [(s1, d1), (s2, d2)] = 13) \<and>
   (distinct [s1, s2, s3] \<and> get_docs nl vocab api u1 n_docs = Some (d1, None) \<and> length d1 = 6 \<and>
    get_docs nl vocab api u2 n_docs = Some (d2, None) \<and> length d2 = 7 \<and>
    get_docs nl vocab api u3 n_docs = Some (d3, None) \<and> length d3 = 7 \<longrightarrow>
      main nl vocab api [] [(s1, u1), (s2, u2), (s3, u3)] n_docs 10 =
        Some ([(1, [(s1, d1), (s2, d2)]), (2, [(s3, d3)])], None))"
proof (intro conjI impI)
  assume a: "main nl vocab api dir subjs n_docs n_file = Some (units, exc) \<and> distinct (map fst subjs)"
  then obtain batch cnt file_nr dumped where
    loop: "main_loop nl vocab api (get_done_subjects dir) n_docs n_file subjs [] 0 1 [] =
       Some ((batch, cnt, file_nr, dumped), exc)"
    and units: "units = dumped @ (if exc = None \<and> batch \<noteq> [] then [(file_nr, batch)] else [])"
    by (blast elim: main_cases)
  from a have d: "distinct (map fst subjs)" by simp
  from a have m: "main nl vocab api dir subjs n_docs n_file = Some (units, exc)" by simp
  have e: "set (map fst subjs) \<inter> set (map fst ([] :: 'a batch)) = {}" by simp
  have c: "0 = n_records ([] :: 'a batch)" by (simp add: n_records_def)
  have b: "([] :: 'a batch) = [] \<or> 0 < n_file" by simp
  have n: "\<forall>u \<in> set ([] :: (nat \<times> 'a batch) list). n_file \<le> n_records (snd u)" by simp
  have n2: "\<forall>u \<in> set ([] :: (nat \<times> 'a batch) list). snd u \<noteq> [] \<and>
        (butlast (snd u) = [] \<or> n_records (butlast (snd u)) < n_file)" by simp
  from main_loop_threshold [OF loop d e c b n]
  have t: "\<forall>u \<in> set dumped. n_file \<le> n_records (snd u)" "cnt = n_records batch" "batch = [] \<or> cnt < n_file"
    by blast+
  note f = main_loop_flush_boundary [OF loop d e c b n2]
  let ?leftover = "if exc = None \<and> batch \<noteq> [] then [(file_nr, batch)] else []"
  have l: "length ?leftover \<le> 1" by simp
  have lr: "\<forall>u \<in> set ?leftover. snd u \<noteq> [] \<and> n_records (snd u) < n_file"
    using t(2,3) by auto
  from units t(1) f l lr
  show "\<exists>flushed leftover. units = flushed @ leftover \<and>
         (\<forall>u \<in> set flushed. n_file \<le> n_records (snd u)) \<and>
         (\<forall>u \<in> set flushed. snd u \<noteq> [] \<and>
            (butlast (snd u) = [] \<or> n_records (butlast (snd u)) < n_file)) \<and>
         length leftover \<le> 1 \<and>
         (\<forall>u \<in> set leftover. snd u \<noteq> [] \<and> n_records (snd u) < n_file)"
    by (intro exI [of _ dumped] exI [of _ ?leftover] conjI)
  from main_loop_complete_subjects [OF loop d e]
  have sub: "set batch \<union> (\<Union>u \<in> set dumped. set (snd u)) \<subseteq>
      {(s, docs). \<exists>url. (s, url) \<in> set subjs \<and> get_docs nl vocab api url n_docs = Some (docs, None)}"
    by simp
  have "(\<Union>u \<in> set units. set (snd u)) \<subseteq> set batch \<union> (\<Union>u \<in> set dumped. set (snd u))"
    unfolding units by auto
  from this sub have "(\<Union>u \<in> set units. set (snd u)) \<subseteq>
      {(s, docs). \<exists>url. (s, url) \<in> set subjs \<and> get_docs nl vocab api url n_docs = Some (docs, None)}"
    by (rule subset_trans)
  then show "\<forall>u \<in> set units. \<forall>(subject, docs) \<in> set (snd u).
         \<exists>url. (subject, url) \<in> set subjs \<and> get_docs nl vocab api url n_docs = Some (docs, None)"
    by blast
  show "concat (map unit_subjects units) =
         filter (\<lambda>subject. subject \<notin> set (get_done_subjects dir)) (map fst subjs)" if "exc = None"
    using main_subjects(2) [OF m d that] .
next
  assume h: "s1 \<noteq> s2 \<and> get_docs nl vocab api u1 n_docs = Some (d1, None) \<and> length d1 = 6 \<and>
    get_docs nl vocab api u2 n_docs = Some (d2, None) \<and> length d2 = 7"
  then show "main nl vocab api [] [(s1, u1), (s2, u2)] n_docs 10 = Some ([(1, [(s1, d1), (s2, d2)])], None)"
    by (simp add: main_def get_done_subjects_def)
  from h show "n_records [(s1, d1), (s2, d2)] = 13"
    by (simp add: n_records_def)
next
  assume "distinct [s1, s2, s3] \<and> get_docs nl vocab api u1 n_docs = Some (d1, None) \<and> length d1 = 6 \<and>
    get_docs nl vocab api u2 n_docs = Some (d2, None) \<and> length d2 = 7 \<and>
    get_docs nl vocab api u3 n_docs = Some (d3, None) \<and> length d3 = 7"
  then show "main nl vocab api [] [(s1, u1), (s2, u2), (s3, u3)] n_docs 10 =
        Some ([(1, [(s1, d1), (s2, d2)]), (2, [(s3, d3)])], None)"
    by (simp add: main_def get_done_subjects_def)
qed

theorem flush_checked_after_each_subject_witness:
  "main plain_nlp {} six_seven_api [] [(''S1'', ''u1''), (''S2'', ''u2''), (''S3'', ''u3'')] 50 10 =
     Some ([(1, [(''S1'', replicate 6 \<lparr>data = [], subjects = []\<rparr>),
                 (''S2'', replicate 7 \<lparr>data = [], subjects = []\<rparr>)]),
            (2, [(''S3'', replicate 7 \<lparr>data = [], subjects = []\<rparr>)])], None) \<and>
   main plain_nlp {} six_seven_api [] [(''S1'', ''u1''), (''S2'', ''u2'')] 50 10 =
     Some ([(1, [(''S1'', replicate 6 \<lparr>data = [], subjects = []\<rparr>),
                 (''S2'', replicate 7 \<lparr>data = [], subjects = []\<rparr>)])], None) \<and>
   (\<exists>flushed leftover.
      [(1::nat, [(''S1'', replicate 6 \<lparr>data = [], subjects = ([] :: (string \<times> nat) list)\<rparr>),
                 (''S2'', replicate 7 \<lparr>data = [], subjects = []\<rparr>)]),
       (2, [(''S3'', replicate 7 \<lparr>data = [], subjects = []\<rparr>)])] = flushed @ leftover \<and>
      (\<forall>u \<in> set flushed. 10 \<le> n_records (snd u)) \<and>
      (\<forall>u \<in> set flushed. snd u \<noteq> [] \<and>
         (butlast (snd u) = [] \<or> n_records (butlast (snd u)) < 10)) \<and>
      length leftover \<le> 1 \<and>
      (\<forall>u \<in> set leftover. snd u \<noteq> [] \<and> n_records (snd u) < 10))"
proof -
  let ?six = "replicate 6 \<lparr>data = [], subjects = ([] :: (string \<times> nat) list)\<rparr>"
  let ?seven = "replicate 7 \<lparr>data = [], subjects = ([] :: (string \<times> nat) list)\<rparr>"
  let ?units = "[(1::nat, [(''S1'', ?six), (''S2'', ?seven)]), (2, [(''S3'', ?seven)])]"
  note inst = flush_checked_after_each_subject [where nl = plain_nlp and vocab = "{}" and api = six_seven_api
      and dir = "[]" and subjs = "[(''S1'', ''u1''), (''S2'', ''u2''), (''S3'', ''u3'')]"
      and n_docs = 50 and n_file = 10 and units = ?units and exc = None
      and ?s1.0 = "''S1''" and ?s2.0 = "''S2''" and ?s3.0 = "''S3''"
      and ?u1.0 = "''u1''" and ?u2.0 = "''u2''" and ?u3.0 = "''u3''"
      and ?d1.0 = ?six and ?d2.0 = ?seven and ?d3.0 = ?seven]
  have run: "main plain_nlp {} six_seven_api [] [(''S1'', ''u1''), (''S2'', ''u2''), (''S3'', ''u3'')] 50 10 =
     Some (?units, None)"
    using inst [THEN conjunct2, THEN conjunct2] get_docs_six get_docs_seven get_docs_seven_u3 by simp
  have two: "main plain_nlp {} six_seven_api [] [(''S1'', ''u1''), (''S2'', ''u2'')] 50 10 =
     Some ([(1, [(''S1'', ?six), (''S2'', ?seven)])], None)"
    using inst [THEN conjunct2, THEN conjunct1] get_docs_six get_docs_seven by simp
  have "distinct (map fst [(''S1'', ''u1''), (''S2'', ''u2''), (''S3'', ''u3'')])" by simp
  with run inst [THEN conjunct1] have "\<exists>flushed leftover. ?units = flushed @ leftover \<and>
      (\<forall>u \<in> set flushed. 10 \<le> n_records (snd u)) \<and>
      (\<forall>u \<in> set flushed. snd u \<noteq> [] \<and>
         (butlast (snd u) = [] \<or> n_records (butlast (snd u)) < 10)) \<and>
      length leftover \<le> 1 \<and>
      (\<forall>u \<in> set leftover. snd u \<noteq> [] \<and> n_records (snd u) < 10)"
    by blast
  with run two show ?thesis by (intro conjI)
qed

text \<open>
  Claim C6. The done subjects are the union of the keys of the persisted units. A run
  behaves as a run without persisted units over the subjects that are not done, and
  the subjects of the units that a completed run writes are exactly the subjects that
  are not done, in their order. With persisted units that cover \<open>X\<close> and \<open>Y\<close>, a run over
  \<open>X\<close>, \<open>Y\<close> and \<open>Z\<close> is the run over \<open>Z\<close> alone.
\<close>

theorem done_subjects_are_skipped:
  "set (get_done_subjects dir) = (\<Union>(file, content) \<in> set dir. fst ` set content) \<and>
   main nl vocab api dir subjs n_docs n_file =
     main nl vocab api [] (filter (\<lambda>(subject, url). subject \<notin> set (get_done_subjects dir)) subjs)
       n_docs n_file \<and>
   (main nl vocab api dir subjs n_docs n_file = Some (units, None) \<and> distinct (map fst subjs) \<longrightarrow>
      concat (map unit_subjects units) =
        filter (\<lambda>subject. subject \<notin> set (get_done_subjects dir)) (map fst subjs)) \<and>
   (set (get_done_subjects dir) = {X, Y} \<and> distinct [X, Y, Z] \<longrightarrow>
      main nl vocab api dir [(X, ux), (Y, uy), (Z, uz)] n_docs n_file =
        main nl vocab api [] [(Z, uz)] n_docs n_file)"
proof (intro conjI impI)
  show "set (get_done_subjects dir) = (\<Union>(file, content) \<in> set dir. fst ` set content)"
    by (rule get_done_subjects_set)
  have empty: "get_done_subjects ([] :: (string \<times> 'a batch) list) = []"
    by (simp add: get_done_subjects_def)
  have run: "main nl vocab api dir ss n_docs n_file =
      main nl vocab api [] (filter (\<lambda>(subject, url). subject \<notin> set (get_done_subjects dir)) ss)
        n_docs n_file" for ss
    unfolding main_def Let_def empty
    by (subst main_loop_skips_done) simp
  show "main nl vocab api dir subjs n_docs n_file =
     main nl vocab api [] (filter (\<lambda>(subject, url). subject \<notin> set (get_done_subjects dir)) subjs)
       n_docs n_file"
    by (rule run)
  {
    assume "main nl vocab api dir subjs n_docs n_file = Some (units, None) \<and> distinct (map fst subjs)"
    then show "concat (map unit_subjects units) =
        filter (\<lambda>subject. subject \<notin> set (get_done_subjects dir)) (map fst subjs)"
      using main_subjects(2) [of nl vocab api dir subjs n_docs n_file units None] by simp
  }
  {
    assume "set (get_done_subjects dir) = {X, Y} \<and> distinct [X, Y, Z]"
    then show "main nl vocab api dir [(X, ux), (Y, uy), (Z, uz)] n_docs n_file =
        main nl vocab api [] [(Z, uz)] n_docs n_file"
      by (subst run) auto
  }
qed

theorem done_subjects_are_skipped_witness:
  "main plain_nlp {} two_pages_api [(''1.json'', [(''X'', []), (''Y'', [])])]
     [(''X'', ''ux''), (''Y'', ''uy''), (''Z'', ''uz'')] 1 1 =
     main plain_nlp {} two_pages_api [] [(''Z'', ''uz'')] 1 1 \<and>
   main plain_nlp {} two_pages_api [(''1.json'', [(''X'', []), (''Y'', [])])]
     [(''X'', ''ux''), (''Y'', ''uy''), (''Z'', ''uz'')] 1 1 =
     Some ([(1, [(''Z'', [\<lparr>data = [], subjects = []\<rparr>])])], None) \<and>
   concat (map unit_subjects [(1::nat, [(''Z'', [\<lparr>data = [], subjects = ([] :: (string \<times> nat) list)\<rparr>])])]) =
     filter (\<lambda>subject. subject \<notin> set (get_done_subjects
         [(''1.json'', [(''X'', []), (''Y'', ([] :: nat processed list))])]))
       (map fst [(''X'', ''ux''), (''Y'', ''uy''), (''Z'', ''uz'')])"
proof -
  let ?dir = "[(''1.json'', [(''X'', []), (''Y'', ([] :: nat processed list))])]"
  let ?subjs = "[(''X'', ''ux''), (''Y'', ''uy''), (''Z'', ''uz'')]"
  let ?units = "[(1::nat, [(''Z'', [\<lparr>data = [], subjects = ([] :: (string \<times> nat) list)\<rparr>])])]"
  note inst = done_subjects_are_skipped [where nl = plain_nlp and vocab = "{}" and api = two_pages_api and dir = ?dir
      and subjs = ?subjs and n_docs = 1 and n_file = 1 and units = ?units
      and X = "''X''" and Y = "''Y''" and Z = "''Z''" and ux = "''ux''" and uy = "''uy''" and uz = "''uz''"]
  have dn: "set (get_done_subjects ?dir) = {''X'', ''Y''} \<and> distinct [''X'', ''Y'', ''Z'']"
    by (simp add: get_done_subjects_def)
  have g: "get_docs plain_nlp {} two_pages_api ''uz'' (Suc 0) = Some ([\<lparr>data = [], subjects = []\<rparr>], None)"
    using get_docs_two_pages [of "''uz''"] by simp
  have fresh: "main plain_nlp {} two_pages_api [] [(''Z'', ''uz'')] 1 1 = Some (?units, None)"
    by (simp add: main_def get_done_subjects_def g)
  from inst dn have eq: "main plain_nlp {} two_pages_api ?dir ?subjs 1 1 =
      main plain_nlp {} two_pages_api [] [(''Z'', ''uz'')] 1 1"
    by blast
  with fresh have run: "main plain_nlp {} two_pages_api ?dir ?subjs 1 1 = Some (?units, None)"
    by simp
  have "distinct (map fst ?subjs)" by simp
  with inst run have "concat (map unit_subjects ?units) =
      filter (\<lambda>subject. subject \<notin> set (get_done_subjects ?dir)) (map fst ?subjs)"
    by blast
  with eq run show ?thesis by blast
qed

text \<open>
  Claim C10. The subjects are the keys of a dict, so they are distinct. In the units
  written by one run, no subject occurs twice: neither twice in a unit, nor in two
  units.
\<close>

theorem subject_in_at_most_one_unit:
  assumes "main nl vocab api dir subjs n_docs n_file = Some (units, exc)"
    and "distinct (map fst subjs)"
  shows "distinct (concat (map unit_subjects units)) \<and>
    (\<forall>i j. i < j \<and> j < length units \<longrightarrow>
       set (unit_subjects (units ! i)) \<inter> set (unit_subjects (units ! j)) = {})"
proof -
  have "distinct (filter (\<lambda>s. s \<notin> set (get_done_subjects dir)) (map fst subjs))"
    using assms(2) by simp
  with main_subjects(1) [OF assms] have d: "distinct (concat (map unit_subjects units))"
    by (auto simp: prefix_def)
  have "set (unit_subjects (units ! i)) \<inter> set (unit_subjects (units ! j)) = {}"
    if "i < j" "j < length units" for i j
    using distinct_concat_nth [OF d, of i j] that by simp
  with d show ?thesis by blast
qed

theorem subject_in_at_most_one_unit_witness:
  "main plain_nlp {} six_seven_api [] [(''S1'', ''u1''), (''S2'', ''u2'')] 50 5 =
     Some ([(1, [(''S1'', replicate 6 \<lparr>data = [], subjects = []\<rparr>)]),
            (2, [(''S2'', replicate 7 \<lparr>data = [], subjects = []\<rparr>)])], None) \<and>
   distinct (concat (map unit_subjects
     [(1::nat, [(''S1'', replicate 6 \<lparr>data = [], subjects = ([] :: (string \<times> nat) list)\<rparr>)]),
      (2, [(''S2'', replicate 7 \<lparr>data = [], subjects = []\<rparr>)])]))"
proof -
  let ?six = "replicate 6 \<lparr>data = [], subjects = ([] :: (string \<times> nat) list)\<rparr>"
  let ?seven = "replicate 7 \<lparr>data = [], subjects = ([] :: (string \<times> nat) list)\<rparr>"
  have run: "main plain_nlp {} six_seven_api [] [(''S1'', ''u1''), (''S2'', ''u2'')] 50 5 =
     Some ([(1, [(''S1'', ?six)]), (2, [(''S2'', ?seven)])], None)"
    by (simp add: main_def get_done_subjects_def get_docs_six get_docs_seven)
  have d: "distinct (map fst [(''S1'', ''u1''), (''S2'', ''u2'')])" by simp
  from subject_in_at_most_one_unit [OF run d] run show ?thesis by simp
qed

end
